theory Spec2Isabelle
  imports Main
begin

section \<open>The tree node of \<^verbatim>\<open>src/js/tree/tree-node.ts\<close>\<close>

text \<open>
  A \<^verbatim>\<open>TreeNode\<close> is a mutable object that points to its parent and to its children and
  reads and writes the maps of its \<^verbatim>\<open>TreeStore\<close>. The embedding keeps the objects in an
  explicit store: a reference is an address, \<open>objs\<close> gives the object at an address, and
  every method takes the state and returns the new one. Every reference a JavaScript
  program holds denotes an object, so \<open>objs\<close> is total; the addresses nobody points to are
  never read.

  The recursive methods (\<^verbatim>\<open>getParents\<close>, \<^verbatim>\<open>walk\<close>, \<^verbatim>\<open>isChecked\<close>, ...) follow
  object links, and on a cyclic object graph they do not return. They take a fuel
  argument and yield \<open>None\<close> when it runs out.
\<close>

subsection \<open>Data\<close>

type_synonym ref = nat
type_synonym ident = string

text \<open>\<^verbatim>\<open>Map<string, boolean>\<close>: \<^verbatim>\<open>set\<close>, \<^verbatim>\<open>delete\<close>, \<^verbatim>\<open>clear\<close>, \<^verbatim>\<open>get\<close>; \<^verbatim>\<open>new Map(m)\<close> is a copy.\<close>

type_synonym idmap = "ident \<rightharpoonup> bool"

text \<open>The truth value of \<^verbatim>\<open>map.get(value)\<close>: the entry is there and it is \<^verbatim>\<open>true\<close>.\<close>

definition mapGet :: "idmap \<Rightarrow> ident \<Rightarrow> bool" where
  "mapGet m v = (m v = Some True)"

text \<open>
  \<^verbatim>\<open>children: TreeNode[] | boolean\<close>, \<^verbatim>\<open>null\<close> after construction: \<open>Absent\<close> is
  \<^verbatim>\<open>null\<close>, \<open>Flag True\<close> the marker of children that are not loaded yet, \<open>Flag False\<close>
  what a load without result leaves, \<open>Nodes cs\<close> an array.
\<close>

datatype kids = Absent | Flag bool | Nodes "ref list"

record TreeNode =
  nvalue :: ident
  dataset :: string
  parent :: "ref option"
  children :: kids
  vmIsLeaf :: bool
  vmIsFirst :: bool
  vmIsLast :: bool
  expanded :: bool
  expandMutex :: bool
  actived :: bool
  activable :: bool
  checkable :: bool
  vmCheckable :: bool
  checked :: bool
  indeterminate :: bool
  disabled :: bool
  draggable :: bool
  visible :: bool
  level :: nat
  loading :: bool

text \<open>
  The data part of \<^verbatim>\<open>getTreeNodeModel\<close> (the method references it also carries are not
  data). It is what \<^verbatim>\<open>config.filter\<close> is applied to.
\<close>

record TreeNodeModel =
  m_data :: string
  m_actived :: bool
  m_expanded :: bool
  m_checked :: bool
  m_indeterminate :: bool
  m_loading :: bool

text \<open>
  The options of \<^verbatim>\<open>tree.config\<close> that the node reads. \<open>cfg_load\<close> says whether
  \<^verbatim>\<open>config.load\<close> is a function; \<open>cfg_filter\<close> is \<^verbatim>\<open>config.filter\<close> when it is one.
\<close>

record TreeConfig =
  cfg_expandMutex :: bool
  cfg_activable :: bool
  cfg_checkable :: bool
  cfg_disabled :: bool
  cfg_checkStrictly :: bool
  cfg_activeMultiple :: bool
  cfg_expandParent :: bool
  cfg_lazy :: bool
  cfg_load :: bool
  cfg_filter :: "(TreeNodeModel \<Rightarrow> bool) option"

text \<open>
  The store as the node sees it, together with the objects. \<open>tree_children\<close> is
  \<^verbatim>\<open>tree.children\<close>, the list of the root-level nodes. Every node belongs to this one
  store (\<^verbatim>\<open>node.tree\<close>).
\<close>

record TreeStore =
  objs :: "ref \<Rightarrow> TreeNode"
  nodeMap :: "ident \<rightharpoonup> ref"
  checkedMap :: idmap
  expandedMap :: idmap
  activedMap :: idmap
  filterMap :: idmap
  tree_children :: "ref list"
  config :: TreeConfig

text \<open>
  Modelled from the spec: \<^verbatim>\<open>tree.reflow\<close>, \<^verbatim>\<open>tree.updated\<close> and
  \<^verbatim>\<open>tree.updateFilterNodes\<close> are methods of the store, whose file is not part of the
  source. The spec (section 2) has the store rebuild its flattened view and emit a change
  notification; the node index, the state maps and the nodes are left as they are.
\<close>

definition reflow :: "TreeStore \<Rightarrow> TreeStore" where
  "reflow s = s"

definition updated :: "TreeStore \<Rightarrow> ref \<Rightarrow> TreeStore" where
  "updated s n = s"

definition updateFilterNodes :: "TreeStore \<Rightarrow> TreeStore" where
  "updateFilterNodes s = s"

subsection \<open>Loops over option-valued bodies\<close>

text \<open>\<^verbatim>\<open>Array.prototype.every\<close> stops at the first element that fails.\<close>

fun every_opt :: "('a \<Rightarrow> bool option) \<Rightarrow> 'a list \<Rightarrow> bool option" where
  "every_opt p [] = Some True"
| "every_opt p (x # xs) =
     (case p x of None \<Rightarrow> None
      | Some b \<Rightarrow> if b then every_opt p xs else Some False)"

text \<open>\<^verbatim>\<open>forEach\<close> with a body that changes the state.\<close>

fun forEach :: "('s \<Rightarrow> 'a \<Rightarrow> 's option) \<Rightarrow> 'a list \<Rightarrow> 's \<Rightarrow> 's option" where
  "forEach g [] s = Some s"
| "forEach g (x # xs) s =
     (case g s x of None \<Rightarrow> None | Some s' \<Rightarrow> forEach g xs s')"

subsection \<open>Reading the structure\<close>

text \<open>\<^verbatim>\<open>getParents\<close>: the loop \<^verbatim>\<open>while (node) { parents.push(node); node = node.parent }\<close>.\<close>

fun parentsFrom :: "nat \<Rightarrow> TreeStore \<Rightarrow> ref option \<Rightarrow> ref list option" where
  "parentsFrom f s None = Some []"
| "parentsFrom 0 s (Some p) = None"
| "parentsFrom (Suc f) s (Some p) =
     (case parentsFrom f s (parent (objs s p)) of
        None \<Rightarrow> None
      | Some ps \<Rightarrow> Some (p # ps))"

definition getParents :: "nat \<Rightarrow> TreeStore \<Rightarrow> ref \<Rightarrow> ref list option" where
  "getParents f s n = parentsFrom f s (parent (objs s n))"

definition getSiblings :: "TreeStore \<Rightarrow> ref \<Rightarrow> ref list" where
  "getSiblings s n =
     (case parent (objs s n) of
        Some p \<Rightarrow> (case children (objs s p) of Nodes cs \<Rightarrow> cs | _ \<Rightarrow> [])
      | None \<Rightarrow> tree_children s)"

text \<open>\<^verbatim>\<open>Array.prototype.indexOf\<close>: the first position, or \<open>-1\<close>.\<close>

fun indexOf :: "ref list \<Rightarrow> ref \<Rightarrow> int" where
  "indexOf [] x = - 1"
| "indexOf (y # ys) x =
     (if y = x then 0
      else (let i = indexOf ys x in if i < 0 then - 1 else i + 1))"

definition getIndex :: "TreeStore \<Rightarrow> ref \<Rightarrow> int" where
  "getIndex s n = indexOf (getSiblings s n) n"

definition getLevel :: "nat \<Rightarrow> TreeStore \<Rightarrow> ref \<Rightarrow> nat option" where
  "getLevel f s n = map_option length (getParents f s n)"

text \<open>\<^verbatim>\<open>walk\<close>: the node and, in order, the walks of its children.\<close>

fun walk :: "nat \<Rightarrow> TreeStore \<Rightarrow> ref \<Rightarrow> ref list option" where
  "walk 0 s n = None"
| "walk (Suc f) s n =
     (case children (objs s n) of
        Nodes cs \<Rightarrow>
          (case those (map (walk f s) cs) of
             None \<Rightarrow> None
           | Some ls \<Rightarrow> Some (n # concat ls))
      | _ \<Rightarrow> Some [n])"

definition getTreeNodeModel :: "TreeStore \<Rightarrow> ref \<Rightarrow> TreeNodeModel" where
  "getTreeNodeModel s n =
     (let node = objs s n in
      \<lparr> m_data = dataset node, m_actived = actived node, m_expanded = expanded node,
        m_checked = checked node, m_indeterminate = indeterminate node,
        m_loading = loading node \<rparr>)"

subsection \<open>State predicates\<close>

definition isExpandMutex :: "TreeStore \<Rightarrow> ref \<Rightarrow> bool" where
  "isExpandMutex s n = (cfg_expandMutex (config s) \<or> expandMutex (objs s n))"

definition isActivable :: "TreeStore \<Rightarrow> ref \<Rightarrow> bool" where
  "isActivable s n = (cfg_activable (config s) \<or> activable (objs s n))"

definition isCheckable :: "TreeStore \<Rightarrow> ref \<Rightarrow> bool" where
  "isCheckable s n = (cfg_checkable (config s) \<or> checkable (objs s n))"

text \<open>The optional map argument: \<^verbatim>\<open>map || tree.activedMap\<close> (a map object is truthy).\<close>

definition isActived :: "TreeStore \<Rightarrow> idmap option \<Rightarrow> ref \<Rightarrow> bool" where
  "isActived s mp n =
     (let m = (case mp of Some m' \<Rightarrow> m' | None \<Rightarrow> activedMap s);
          v = nvalue (objs s n)
      in nodeMap s v \<noteq> None \<and> mapGet m v)"

definition isExpanded :: "TreeStore \<Rightarrow> idmap option \<Rightarrow> ref \<Rightarrow> bool" where
  "isExpanded s mp n =
     (let m = (case mp of Some m' \<Rightarrow> m' | None \<Rightarrow> expandedMap s);
          v = nvalue (objs s n)
      in nodeMap s v \<noteq> None \<and> mapGet m v)"

fun isChecked :: "nat \<Rightarrow> TreeStore \<Rightarrow> idmap option \<Rightarrow> ref \<Rightarrow> bool option" where
  "isChecked 0 s mp n = None"
| "isChecked (Suc f) s mp n =
     (let node = objs s n;
          checkStrictly = cfg_checkStrictly (config s);
          m = (case mp of Some m' \<Rightarrow> m' | None \<Rightarrow> checkedMap s)
      in if nodeMap s (nvalue node) \<noteq> None then
           if mapGet m (nvalue node) then Some True
           else if (case children node of Nodes cs \<Rightarrow> cs \<noteq> [] | _ \<Rightarrow> False)
                   \<and> \<not> checkStrictly then
             (case children node of
                Nodes cs \<Rightarrow> every_opt (isChecked f s (Some m)) cs
              | _ \<Rightarrow> Some False)
           else if \<not> checkStrictly then
             (case getParents f s n of
                None \<Rightarrow> None
              | Some ps \<Rightarrow> Some (list_ex (\<lambda>p. mapGet m (nvalue (objs s p))) ps))
           else Some False
         else Some False)"

text \<open>
  The callback of \<^verbatim>\<open>children.some\<close> in \<^verbatim>\<open>isIndeterminate\<close>, with its variable
  \<^verbatim>\<open>childChecked\<close> (\<open>None\<close> is \<^verbatim>\<open>null\<close>) carried along the loop.
\<close>

fun someDiffer ::
  "(ref \<Rightarrow> bool option) \<Rightarrow> (ref \<Rightarrow> bool option) \<Rightarrow> bool option \<Rightarrow> ref list \<Rightarrow> bool option"
where
  "someDiffer ind chk childChecked [] = Some False"
| "someDiffer ind chk childChecked (c # cs) =
     (case ind c of
        None \<Rightarrow> None
      | Some i \<Rightarrow>
          if i then Some True
          else
            (case chk c of
               None \<Rightarrow> None
             | Some b \<Rightarrow>
                 (let cc = (case childChecked of None \<Rightarrow> b | Some b0 \<Rightarrow> b0)
                  in if cc \<noteq> b then Some True else someDiffer ind chk (Some cc) cs)))"

fun isIndeterminate :: "nat \<Rightarrow> TreeStore \<Rightarrow> ref \<Rightarrow> bool option" where
  "isIndeterminate 0 s n = None"
| "isIndeterminate (Suc f) s n =
     (case children (objs s n) of
        Nodes cs \<Rightarrow> someDiffer (isIndeterminate f s) (isChecked f s None) None cs
      | _ \<Rightarrow> Some False)"

definition isFirst :: "TreeStore \<Rightarrow> ref \<Rightarrow> bool" where
  "isFirst s n = (case getSiblings s n of [] \<Rightarrow> False | x # _ \<Rightarrow> x = n)"

definition isLast :: "TreeStore \<Rightarrow> ref \<Rightarrow> bool" where
  "isLast s n = (case getSiblings s n of [] \<Rightarrow> False | x # xs \<Rightarrow> last (x # xs) = n)"

definition isLeaf :: "TreeStore \<Rightarrow> ref \<Rightarrow> bool" where
  "isLeaf s n =
     (case children (objs s n) of
        Nodes cs \<Rightarrow> length cs \<le> 0
      | Flag b \<Rightarrow> \<not> b
      | Absent \<Rightarrow> True)"

subsection \<open>Recomputing the cached flags\<close>

definition setNode :: "TreeStore \<Rightarrow> ref \<Rightarrow> (TreeNode \<Rightarrow> TreeNode) \<Rightarrow> TreeStore" where
  "setNode s n g = s\<lparr>objs := (objs s)(n := g (objs s n))\<rparr>"

definition getVisible :: "nat \<Rightarrow> TreeStore \<Rightarrow> ref \<Rightarrow> (TreeStore \<times> bool) option" where
  "getVisible f s n =
     (let v = nvalue (objs s n) in
      if nodeMap s v \<noteq> None then
        (case getParents f s n of
           None \<Rightarrow> None
         | Some parents \<Rightarrow>
             (let expandVisible =
                    (if length parents > 0 then list_all (isExpanded s None) parents
                     else True)
              in case cfg_filter (config s) of
                   Some flt \<Rightarrow>
                     (let filterVisible = flt (getTreeNodeModel s n);
                          fm = filterMap s;
                          fm' = (if filterVisible then fm(v \<mapsto> True)
                                 else if mapGet fm v then fm(v := None) else fm)
                      in Some (updateFilterNodes (s\<lparr>filterMap := fm'\<rparr>),
                               expandVisible \<or> filterVisible))
                 | None \<Rightarrow> Some (s, expandVisible \<or> False)))
      else Some (s, False))"

text \<open>
  \<^verbatim>\<open>update\<close> assigns the flags in the order of the source: \<^verbatim>\<open>getVisible\<close> runs last,
  on the node whose \<^verbatim>\<open>actived\<close> and \<^verbatim>\<open>expanded\<close> are already the new ones.
\<close>

definition update :: "nat \<Rightarrow> TreeStore \<Rightarrow> ref \<Rightarrow> TreeStore option" where
  "update f s n =
     (case getLevel f s n of
        None \<Rightarrow> None
      | Some lv \<Rightarrow>
          (let s1 = setNode s n (\<lambda>node. node\<lparr>vmIsFirst := isFirst s n, vmIsLast := isLast s n,
                      vmIsLeaf := isLeaf s n, level := lv, actived := isActived s None n,
                      expanded := isExpanded s None n\<rparr>)
           in case getVisible f s1 n of
                None \<Rightarrow> None
              | Some (s2, vis) \<Rightarrow>
                  Some (updated (setNode s2 n (\<lambda>node. node\<lparr>visible := vis\<rparr>)) n)))"

definition updateChecked :: "nat \<Rightarrow> TreeStore \<Rightarrow> ref \<Rightarrow> TreeStore option" where
  "updateChecked f s n =
     (let vc = isCheckable s n;
          s1 = setNode s n (\<lambda>node. node\<lparr>vmCheckable := vc\<rparr>)
      in if vc then
           (case isChecked f s1 None n of
              None \<Rightarrow> None
            | Some c \<Rightarrow>
                (let s2 = setNode s1 n (\<lambda>node. node\<lparr>checked := c\<rparr>);
                     s3 = (if c then s2\<lparr>checkedMap := (checkedMap s2)(nvalue (objs s2 n) \<mapsto> True)\<rparr>
                           else s2)
                 in case isIndeterminate f s3 n of
                      None \<Rightarrow> None
                    | Some i \<Rightarrow>
                        Some (updated (setNode s3 n (\<lambda>node. node\<lparr>indeterminate := i\<rparr>)) n)))
         else Some s1)"

text \<open>The body \<^verbatim>\<open>node.update(); node.updateChecked()\<close> of several loops.\<close>

definition updateBoth :: "nat \<Rightarrow> TreeStore \<Rightarrow> ref \<Rightarrow> TreeStore option" where
  "updateBoth f s n = Option.bind (update f s n) (\<lambda>s'. updateChecked f s' n)"

fun updateChildren :: "nat \<Rightarrow> TreeStore \<Rightarrow> ref \<Rightarrow> TreeStore option" where
  "updateChildren 0 s n = None"
| "updateChildren (Suc f) s n =
     (case children (objs s n) of
        Nodes cs \<Rightarrow>
          forEach (\<lambda>s' c. Option.bind (updateBoth f s' c) (\<lambda>s''. updateChildren f s'' c)) cs s
      | _ \<Rightarrow> Some s)"

fun updateParents :: "nat \<Rightarrow> TreeStore \<Rightarrow> ref \<Rightarrow> TreeStore option" where
  "updateParents 0 s n = None"
| "updateParents (Suc f) s n =
     (case parent (objs s n) of
        Some p \<Rightarrow> Option.bind (updateBoth f s p) (\<lambda>s'. updateParents f s' p)
      | None \<Rightarrow> Some s)"

subsection \<open>Removing a node\<close>

text \<open>
  \<^verbatim>\<open>Array.prototype.splice(start, deleteCount, ...items)\<close> on integers: a negative start
  counts from the end, a start beyond the end is the end.
\<close>

definition arraySplice :: "'a list \<Rightarrow> int \<Rightarrow> nat \<Rightarrow> 'a list \<Rightarrow> 'a list" where
  "arraySplice xs start deleteCount items =
     (let len = int (length xs);
          st = nat (if start < 0 then max (len + start) 0 else min start len)
      in take st xs @ items @ drop (st + deleteCount) xs)"

definition clean :: "TreeStore \<Rightarrow> ref \<Rightarrow> TreeStore" where
  "clean s n =
     (let v = nvalue (objs s n)
      in s\<lparr>activedMap := (activedMap s)(v := None),
           checkedMap := (checkedMap s)(v := None),
           expandedMap := (expandedMap s)(v := None),
           nodeMap := (nodeMap s)(v := None)\<rparr>)"

text \<open>
  \<^verbatim>\<open>remove\<close>: \<^verbatim>\<open>getSiblings\<close> hands out the array itself (the parent's children or the
  root list), so the splice changes it in place; when the parent has no array the list is
  a fresh empty one.
\<close>

definition remove :: "nat \<Rightarrow> TreeStore \<Rightarrow> ref \<Rightarrow> TreeStore option" where
  "remove f s n =
     (case walk f s n of
        None \<Rightarrow> None
      | Some nodes \<Rightarrow>
          (let index = getIndex s n;
               siblings = arraySplice (getSiblings s n) index 1 [];
               s1 = (case parent (objs s n) of
                       Some p \<Rightarrow>
                         (case children (objs s p) of
                            Nodes cs \<Rightarrow> setNode s p (\<lambda>node. node\<lparr>children := Nodes siblings\<rparr>)
                          | _ \<Rightarrow> s)
                     | None \<Rightarrow> s\<lparr>tree_children := siblings\<rparr>);
               s2 = foldl clean s1 nodes
           in Option.bind (forEach (update f) siblings s2)
                (\<lambda>s3. map_option reflow (updateParents f s3 n))))"

subsection \<open>Loading children\<close>

text \<open>
  \<^verbatim>\<open>loadChildren\<close> is asynchronous: the call runs up to \<^verbatim>\<open>await config.load(this)\<close> and
  returns; what follows the \<^verbatim>\<open>await\<close> runs later and is not part of the call.
\<close>

definition loadChildren :: "nat \<Rightarrow> TreeStore \<Rightarrow> ref \<Rightarrow> TreeStore option" where
  "loadChildren f s n =
     (if children (objs s n) = Flag True \<and> \<not> loading (objs s n) then
        if cfg_load (config s) then
          update f (setNode s n (\<lambda>node. node\<lparr>loading := True\<rparr>)) n
        else Some s
      else Some s)"

definition afterExpanded :: "nat \<Rightarrow> TreeStore \<Rightarrow> ref \<Rightarrow> TreeStore option" where
  "afterExpanded f s n =
     Option.bind (update f s n)
       (\<lambda>s1. if expanded (objs s1 n) \<and> children (objs s1 n) = Flag True
             then loadChildren f s1 n else Some s1)"

subsection \<open>Switching the states\<close>

text \<open>
  Each setter works on \<^verbatim>\<open>map\<close>, which is the live map of the store when
  \<^verbatim>\<open>options.directly\<close> is set and a copy of it otherwise. The model returns the state and
  the content of \<^verbatim>\<open>map\<close> at the \<^verbatim>\<open>return\<close> (the list the source returns is
  \<^verbatim>\<open>tree.getExpanded(map)\<close>, computed by the store from this map).
\<close>

text \<open>One round of the loop over \<^verbatim>\<open>shouldExpandNodes\<close>.\<close>

definition expandStep :: "TreeStore \<Rightarrow> idmap \<Rightarrow> ref \<Rightarrow> idmap" where
  "expandStep s m node =
     (let isExpandMutex' =
            (case parent (objs s node) of
               Some p \<Rightarrow> isExpandMutex s p
             | None \<Rightarrow> cfg_expandMutex (config s));
          m1 = (if isExpandMutex'
                then foldl (\<lambda>m' snode. m'(nvalue (objs s snode) := None)) m (getSiblings s node)
                else m)
      in m1(nvalue (objs s node) \<mapsto> True))"

definition setExpanded ::
  "nat \<Rightarrow> TreeStore \<Rightarrow> ref \<Rightarrow> bool \<Rightarrow> bool \<Rightarrow> (TreeStore \<times> idmap) option" where
  "setExpanded f s n expanded' directly =
     (case (if expanded' then
              (case (if cfg_expandParent (config s) then getParents f s n else Some []) of
                 None \<Rightarrow> None
               | Some ps \<Rightarrow> Some (foldl (expandStep s) (expandedMap s) (n # ps)))
            else Some ((expandedMap s)(nvalue (objs s n) := None))) of
        None \<Rightarrow> None
      | Some m \<Rightarrow>
          if directly then
            map_option (\<lambda>s'. (s', expandedMap s'))
              (Option.bind (afterExpanded f (s\<lparr>expandedMap := m\<rparr>) n)
                 (\<lambda>s1. Option.bind (update f s1 n) (\<lambda>s2. updateChildren f s2 n)))
          else Some (s, m))"

definition setActived ::
  "nat \<Rightarrow> TreeStore \<Rightarrow> ref \<Rightarrow> bool \<Rightarrow> bool \<Rightarrow> (TreeStore \<times> idmap) option" where
  "setActived f s n actived' directly =
     (let m0 = activedMap s;
          v = nvalue (objs s n);
          m = (if isActivable s n then
                 if actived' then
                   (if \<not> cfg_activeMultiple (config s) then Map.empty else m0)(v \<mapsto> True)
                 else m0(v := None)
               else m0)
      in if directly then
           map_option (\<lambda>s'. (s', activedMap s')) (update f (s\<lparr>activedMap := m\<rparr>) n)
         else Some (s, m))"

text \<open>The writes of \<^verbatim>\<open>setChecked\<close> to \<^verbatim>\<open>map\<close>: the first \<^verbatim>\<open>if\<close> of its body.\<close>

definition checkedWrites :: "nat \<Rightarrow> TreeStore \<Rightarrow> ref \<Rightarrow> bool \<Rightarrow> idmap option" where
  "checkedWrites f s n checked' =
     (let m0 = checkedMap s; v = nvalue (objs s n) in
      if isCheckable s n then
        (case isChecked f s None n of
           None \<Rightarrow> None
         | Some cur \<Rightarrow>
             if checked' \<noteq> cur then
               if cfg_checkStrictly (config s) then
                 Some (if checked' then m0(v \<mapsto> True) else m0(v := None))
               else
                 (case walk f s n of
                    None \<Rightarrow> None
                  | Some nodes \<Rightarrow>
                      (case getParents f s n of
                         None \<Rightarrow> None
                       | Some parents \<Rightarrow>
                           Some (foldl (\<lambda>m node. m(nvalue (objs s node) := None))
                                  (foldl (\<lambda>m node.
                                            if checked' then m(nvalue (objs s node) \<mapsto> True)
                                            else m(nvalue (objs s node) := None)) m0 nodes)
                                  parents)))
             else Some m0)
      else Some m0)"

text \<open>
  \<^verbatim>\<open>tree.getRelatedNodes\<close> is a method of the store, whose file is not part of the
  source; \<^verbatim>\<open>setChecked\<close> takes it as the parameter \<open>rel\<close>, applied to the state and to
  the node whose value is handed over.
\<close>

definition setChecked ::
  "(TreeStore \<Rightarrow> ref \<Rightarrow> ref list option) \<Rightarrow> nat \<Rightarrow> TreeStore \<Rightarrow> ref \<Rightarrow> bool \<Rightarrow> bool
    \<Rightarrow> (TreeStore \<times> idmap) option" where
  "setChecked rel f s n checked' directly =
     (case checkedWrites f s n checked' of
        None \<Rightarrow> None
      | Some m \<Rightarrow>
          if directly then
            (let s1 = s\<lparr>checkedMap := m\<rparr> in
             map_option (\<lambda>s'. (s', checkedMap s'))
               (if cfg_checkStrictly (config s1) then updateChecked f s1 n
                else (case rel s1 n of
                        None \<Rightarrow> None
                      | Some relatedNodes \<Rightarrow> forEach (updateChecked f) relatedNodes s1)))
          else Some (s, m))"

text \<open>
  Modelled from the spec: \<^verbatim>\<open>tree.getRelatedNodes([value])\<close>, missing with the store.
  The spec (section 4.2) has the propagation run over the subtree of the node and the
  nodes that depend on it, its ancestors; here the ancestors from the root down, then the
  subtree.
\<close>

definition getRelatedNodes :: "nat \<Rightarrow> TreeStore \<Rightarrow> ref \<Rightarrow> ref list option" where
  "getRelatedNodes f s n =
     (case getParents f s n of
        None \<Rightarrow> None
      | Some ps \<Rightarrow> (case walk f s n of None \<Rightarrow> None | Some ws \<Rightarrow> Some (rev ps @ ws)))"

subsection \<open>Moving a node\<close>

datatype error = TypeError

text \<open>
  Lines 242 to 252 of \<^verbatim>\<open>appendTo\<close>: \<^verbatim>\<open>parentNode.children[targetIndex]\<close> is
  \<^verbatim>\<open>undefined\<close> when the index is not a position of the array, and reading \<^verbatim>\<open>.value\<close>
  of \<^verbatim>\<open>undefined\<close> throws a TypeError.
\<close>

definition samePosition :: "TreeStore \<Rightarrow> ref \<Rightarrow> ref \<Rightarrow> int option \<Rightarrow> error + bool" where
  "samePosition s n parentNode index =
     (case children (objs s parentNode) of
        Nodes cs \<Rightarrow>
          (let targetIndex = (case index of Some i \<Rightarrow> i | None \<Rightarrow> 0) in
           if 0 \<le> targetIndex \<and> targetIndex < int (length cs) then
             Inr (nvalue (objs s (cs ! nat targetIndex)) = nvalue (objs s n))
           else Inl TypeError)
      | _ \<Rightarrow> Inr False)"

text \<open>
  Lines 255 to 272: the node gets its new parent and enters the parent's array, which is
  made when the parent has none. (The branch for a \<^verbatim>\<open>parentNode\<close> that is not a
  \<^verbatim>\<open>TreeNode\<close> cannot be taken: the parameter has that type.)
\<close>

definition link :: "TreeStore \<Rightarrow> ref \<Rightarrow> ref \<Rightarrow> int option \<Rightarrow> TreeStore" where
  "link s n parentNode index =
     (let s2 = setNode s n (\<lambda>node. node\<lparr>parent := Some parentNode\<rparr>);
          siblings = (case children (objs s2 parentNode) of Nodes cs \<Rightarrow> cs | _ \<Rightarrow> []);
          siblings' = (case index of
                         Some i \<Rightarrow> arraySplice siblings i 0 [n]
                       | None \<Rightarrow> siblings @ [n])
      in setNode s2 parentNode (\<lambda>node. node\<lparr>children := Nodes siblings'\<rparr>))"

text \<open>The body of the loop over \<^verbatim>\<open>this.walk()\<close> in \<^verbatim>\<open>appendTo\<close>.\<close>

definition register :: "TreeStore \<Rightarrow> ref \<Rightarrow> TreeStore" where
  "register s node =
     (let v = nvalue (objs s node);
          s1 = s\<lparr>nodeMap := (nodeMap s)(v \<mapsto> node)\<rparr>
      in if expanded (objs s node) then s1\<lparr>expandedMap := (expandedMap s1)(v \<mapsto> True)\<rparr>
         else s1)"

text \<open>
  \<^verbatim>\<open>appendTo(tree, parent, index)\<close>, with \<^verbatim>\<open>tree\<close> the store of the node. The result
  is \<open>None\<close> when a loop does not return, \<open>Some (Inl TypeError)\<close> when the call throws, and
  \<open>Some (Inr s')\<close> when it returns in state \<open>s'\<close>.
\<close>

definition appendTo ::
  "nat \<Rightarrow> TreeStore \<Rightarrow> ref \<Rightarrow> ref option \<Rightarrow> int option \<Rightarrow> (error + TreeStore) option" where
  "appendTo f s n parent' index =
     (case parent' of
        None \<Rightarrow> Some (Inr s)
      | Some parentNode \<Rightarrow>
          (case getParents f s parentNode of
             None \<Rightarrow> None
           | Some targetParents \<Rightarrow>
               if list_ex (\<lambda>node. nvalue (objs s node) = nvalue (objs s n)) targetParents
               then Some (Inr s)
               else
                 (case samePosition s n parentNode index of
                    Inl e \<Rightarrow> Some (Inl e)
                  | Inr True \<Rightarrow> Some (Inr s)
                  | Inr False \<Rightarrow>
                      (case remove f s n of
                         None \<Rightarrow> None
                       | Some s1 \<Rightarrow>
                           (let s4 = link s1 n parentNode index in
                            case walk f s4 n of
                              None \<Rightarrow> None
                            | Some nodes \<Rightarrow>
                                (let s5 = foldl register s4 nodes in
                                 case walk f s5 parentNode of
                                   None \<Rightarrow> None
                                 | Some updateNodes \<Rightarrow>
                                     map_option (\<lambda>s'. Inr (reflow s'))
                                       (forEach (updateBoth f) updateNodes s5)))))))"

text \<open>
  \<^verbatim>\<open>insert(item, index)\<close> for an item that is a \<^verbatim>\<open>TreeNode\<close> (the other branch builds a
  new node from data), and the two methods that compute the index from the position of
  the node.
\<close>

definition insertNode ::
  "nat \<Rightarrow> TreeStore \<Rightarrow> ref \<Rightarrow> ref \<Rightarrow> int option \<Rightarrow> (error + TreeStore) option" where
  "insertNode f s n item index =
     (case appendTo f s item (parent (objs s n)) index of
        None \<Rightarrow> None
      | Some (Inl e) \<Rightarrow> Some (Inl e)
      | Some (Inr s') \<Rightarrow> Some (Inr (reflow s')))"

definition insertBefore :: "nat \<Rightarrow> TreeStore \<Rightarrow> ref \<Rightarrow> ref \<Rightarrow> (error + TreeStore) option" where
  "insertBefore f s n newData = insertNode f s n newData (Some (getIndex s n))"

definition insertAfter :: "nat \<Rightarrow> TreeStore \<Rightarrow> ref \<Rightarrow> ref \<Rightarrow> (error + TreeStore) option" where
  "insertAfter f s n newData = insertNode f s n newData (Some (getIndex s n + 1))"

subsection \<open>Setting the switches of a node\<close>

text \<open>
  \<^verbatim>\<open>set(item)\<close> copies from \<^verbatim>\<open>item\<close> the keys it has among those of
  \<^verbatim>\<open>defaultStatus\<close> (and \<^verbatim>\<open>label\<close>, which the model leaves out). A key that
  \<^verbatim>\<open>item\<close> does not have is \<open>None\<close>.
\<close>

record TreeNodeState =
  st_expandMutex :: "bool option"
  st_activable :: "bool option"
  st_checkable :: "bool option"
  st_disabled :: "bool option"
  st_draggable :: "bool option"
  st_loading :: "bool option"

definition set_state :: "TreeStore \<Rightarrow> ref \<Rightarrow> TreeNodeState \<Rightarrow> TreeStore" where
  "set_state s n item =
     updated (setNode s n (\<lambda>node. node\<lparr>
        expandMutex := (case st_expandMutex item of Some b \<Rightarrow> b | None \<Rightarrow> expandMutex node),
        activable := (case st_activable item of Some b \<Rightarrow> b | None \<Rightarrow> activable node),
        checkable := (case st_checkable item of Some b \<Rightarrow> b | None \<Rightarrow> checkable node),
        disabled := (case st_disabled item of Some b \<Rightarrow> b | None \<Rightarrow> disabled node),
        draggable := (case st_draggable item of Some b \<Rightarrow> b | None \<Rightarrow> draggable node),
        loading := (case st_loading item of Some b \<Rightarrow> b | None \<Rightarrow> loading node)\<rparr>)) n"

section \<open>Notions used in the statements\<close>

text \<open>
  Two states have the same structure when they agree on the node index, the
  configuration, the root list and, for every object, on its value, its links and its
  switches. The cached flags and the state maps may differ.
\<close>

definition sameStruct :: "TreeStore \<Rightarrow> TreeStore \<Rightarrow> bool" where
  "sameStruct s s' =
     (nodeMap s' = nodeMap s \<and> config s' = config s \<and> tree_children s' = tree_children s
      \<and> (\<forall>r. nvalue (objs s' r) = nvalue (objs s r)
            \<and> parent (objs s' r) = parent (objs s r)
            \<and> children (objs s' r) = children (objs s r)
            \<and> checkable (objs s' r) = checkable (objs s r)
            \<and> expandMutex (objs s' r) = expandMutex (objs s r)
            \<and> activable (objs s' r) = activable (objs s r)))"

text \<open>A step keeps the structure and the expanded and activated maps.\<close>

definition keeps :: "TreeStore \<Rightarrow> TreeStore \<Rightarrow> bool" where
  "keeps s s' = (sameStruct s s' \<and> expandedMap s' = expandedMap s \<and> activedMap s' = activedMap s)"

text \<open>Every identity that reads as true in \<open>m\<close> does so in \<open>m'\<close>.\<close>

definition grows :: "idmap \<Rightarrow> idmap \<Rightarrow> bool" where
  "grows m m' = (\<forall>k. mapGet m k \<longrightarrow> mapGet m' k)"

text \<open>
  The identities that one round of the loop of \<^verbatim>\<open>setExpanded\<close> can touch: the
  candidate's and its siblings'.
\<close>

definition family :: "TreeStore \<Rightarrow> ref \<Rightarrow> ident list" where
  "family s c = nvalue (objs s c) # map (\<lambda>x. nvalue (objs s x)) (getSiblings s c)"

fun pairwiseDisjoint :: "'a list list \<Rightarrow> bool" where
  "pairwiseDisjoint [] = True"
| "pairwiseDisjoint (x # xs) =
     (list_all (\<lambda>y. list_all (\<lambda>a. a \<notin> set y) x) xs \<and> pairwiseDisjoint xs)"

text \<open>
  The derivation of the checked state in the words of the specification, for an attached
  node: the identity is in the map; or, outside strict mode, the node has a non-empty
  children list and every child is checked against the same map; or, outside strict mode
  and with no children list, some ancestor's identity is in the map.
\<close>

definition isChecked_claimed :: "nat \<Rightarrow> TreeStore \<Rightarrow> idmap \<Rightarrow> ref \<Rightarrow> bool" where
  "isChecked_claimed f s m n =
     (mapGet m (nvalue (objs s n))
      \<or> (\<not> cfg_checkStrictly (config s)
          \<and> (case children (objs s n) of
                Nodes cs \<Rightarrow> cs \<noteq> [] \<and> list_all (\<lambda>c. isChecked f s (Some m) c = Some True) cs
              | _ \<Rightarrow> False))
      \<or> (\<not> cfg_checkStrictly (config s)
          \<and> (case children (objs s n) of Nodes cs \<Rightarrow> False | _ \<Rightarrow> True)
          \<and> (case getParents f s n of
                Some ps \<Rightarrow> list_ex (\<lambda>p. mapGet m (nvalue (objs s p))) ps
              | None \<Rightarrow> False)))"

text \<open>
  The governing mutex flag in the words of the specification: the candidate's own flag
  if it is root-level, else its parent's.
\<close>

definition governingMutex_claimed :: "TreeStore \<Rightarrow> ref \<Rightarrow> bool" where
  "governingMutex_claimed s c =
     (case parent (objs s c) of
        Some p \<Rightarrow> isExpandMutex s p
      | None \<Rightarrow> isExpandMutex s c)"

text \<open>
  A tree, by two measures: a depth \<open>d\<close> that falls from a node to its parent, a height
  \<open>h\<close> that falls from a node to each of its children, and a bound \<open>B\<close> on both. With
  them no chain of parent links and no chain of child links comes back to its start.
\<close>

definition treeMeasures :: "TreeStore \<Rightarrow> (ref \<Rightarrow> nat) \<Rightarrow> (ref \<Rightarrow> nat) \<Rightarrow> nat \<Rightarrow> bool" where
  "treeMeasures s d h B =
     ((\<forall>r p. parent (objs s r) = Some p \<longrightarrow> d p < d r)
      \<and> (\<forall>r cs c. children (objs s r) = Nodes cs \<and> c \<in> set cs \<longrightarrow> h c < h r)
      \<and> (\<forall>r. d r \<le> B \<and> h r \<le> B))"

text \<open>
  A list of nodes is closed when the parent of each of its nodes is in it, and each of its
  nodes with a non-empty children list has a child in it. In a tree whose parent and
  children links agree, a subtree together with the ancestors of its root is closed.
\<close>

definition closedRegion :: "TreeStore \<Rightarrow> ref list \<Rightarrow> bool" where
  "closedRegion s us =
     list_all (\<lambda>u. (case parent (objs s u) of None \<Rightarrow> True | Some p \<Rightarrow> p \<in> set us)
                  \<and> (case children (objs s u) of
                        Nodes cs \<Rightarrow> cs = [] \<or> list_ex (\<lambda>c. c \<in> set us) cs
                      | _ \<Rightarrow> True)) us"

section \<open>Example trees\<close>

definition blank :: TreeNode where
  "blank = \<lparr> nvalue = [], dataset = [], parent = None, children = Absent,
     vmIsLeaf = False, vmIsFirst = False, vmIsLast = False, expanded = False,
     expandMutex = False, actived = False, activable = False, checkable = False,
     vmCheckable = False, checked = False, indeterminate = False, disabled = False,
     draggable = False, visible = True, level = 0, loading = False \<rparr>"

text \<open>A node whose data is its value.\<close>

definition mkNode :: "ident \<Rightarrow> ref option \<Rightarrow> kids \<Rightarrow> TreeNode" where
  "mkNode v p c = blank\<lparr>nvalue := v, dataset := v, parent := p, children := c\<rparr>"

text \<open>Every node is checkable; the other options are off.\<close>

definition cfg0 :: TreeConfig where
  "cfg0 = \<lparr> cfg_expandMutex = False, cfg_activable = False, cfg_checkable = True,
     cfg_disabled = False, cfg_checkStrictly = False, cfg_activeMultiple = False,
     cfg_expandParent = False, cfg_lazy = False, cfg_load = False, cfg_filter = None \<rparr>"

text \<open>
  The root \<open>r\<close> (address 0) with the children \<open>a\<close> (1) and \<open>b\<close> (2); \<open>a\<close> has the one
  child \<open>d\<close> (3). All maps are empty.
\<close>

definition ex_store :: TreeStore where
  "ex_store = \<lparr> objs = (\<lambda>_. blank)(0 := mkNode ''r'' None (Nodes [1, 2]),
                   1 := mkNode ''a'' (Some 0) (Nodes [3]),
                   2 := mkNode ''b'' (Some 0) Absent,
                   3 := mkNode ''d'' (Some 1) Absent),
     nodeMap = [''r'' \<mapsto> 0, ''a'' \<mapsto> 1, ''b'' \<mapsto> 2, ''d'' \<mapsto> 3],
     checkedMap = Map.empty, expandedMap = Map.empty, activedMap = Map.empty,
     filterMap = Map.empty, tree_children = [0], config = cfg0 \<rparr>"

text \<open>The same tree in strict mode.\<close>

definition ex_strict :: TreeStore where
  "ex_strict = ex_store\<lparr>config := cfg0\<lparr>cfg_checkStrictly := True\<rparr>\<rparr>"

text \<open>The same tree with a filter that accepts the node whose data is \<open>d\<close>, and no other.\<close>

definition ex_filter :: TreeStore where
  "ex_filter = ex_store\<lparr>config := cfg0\<lparr>cfg_filter := Some (\<lambda>m. m_data m = ''d'')\<rparr>\<rparr>"

text \<open>The same tree with a filter that accepts the node whose data is \<open>b\<close>.\<close>

definition ex_filter_b :: TreeStore where
  "ex_filter_b = ex_store\<lparr>config := cfg0\<lparr>cfg_filter := Some (\<lambda>m. m_data m = ''b'')\<rparr>\<rparr>"

text \<open>
  The same tree where the configuration makes no node checkable and the nodes \<open>a\<close>, \<open>b\<close>
  and \<open>d\<close> are checkable by their own switch; the root is not.
\<close>

definition ex_switch :: TreeStore where
  "ex_switch = \<lparr> objs = (\<lambda>_. blank)(0 := mkNode ''r'' None (Nodes [1, 2]),
                   1 := (mkNode ''a'' (Some 0) (Nodes [3]))\<lparr>checkable := True\<rparr>,
                   2 := (mkNode ''b'' (Some 0) Absent)\<lparr>checkable := True\<rparr>,
                   3 := (mkNode ''d'' (Some 1) Absent)\<lparr>checkable := True\<rparr>),
     nodeMap = [''r'' \<mapsto> 0, ''a'' \<mapsto> 1, ''b'' \<mapsto> 2, ''d'' \<mapsto> 3],
     checkedMap = Map.empty, expandedMap = Map.empty, activedMap = Map.empty,
     filterMap = Map.empty, tree_children = [0],
     config = cfg0\<lparr>cfg_checkable := False\<rparr> \<rparr>"

text \<open>
  A parent \<open>p\<close> (0) with the switch \<^verbatim>\<open>expandMutex\<close> and three children \<open>a\<close> (1), \<open>b\<close> (2)
  and \<open>c\<close> (3); \<open>a\<close> is expanded.
\<close>

definition ex_mutex :: TreeStore where
  "ex_mutex = \<lparr> objs = (\<lambda>_. blank)(0 := (mkNode ''p'' None (Nodes [1, 2, 3]))\<lparr>expandMutex := True\<rparr>,
                   1 := mkNode ''a'' (Some 0) Absent,
                   2 := mkNode ''b'' (Some 0) Absent,
                   3 := mkNode ''c'' (Some 0) Absent),
     nodeMap = [''p'' \<mapsto> 0, ''a'' \<mapsto> 1, ''b'' \<mapsto> 2, ''c'' \<mapsto> 3],
     checkedMap = Map.empty, expandedMap = [''a'' \<mapsto> True], activedMap = Map.empty,
     filterMap = Map.empty, tree_children = [0], config = cfg0 \<rparr>"

text \<open>
  The first tree with \<open>b\<close> expanded, where the configuration has \<^verbatim>\<open>expandMutex\<close> and
  \<^verbatim>\<open>expandParent\<close>.
\<close>

definition ex_accordion :: TreeStore where
  "ex_accordion = ex_store\<lparr>expandedMap := [''b'' \<mapsto> True],
     config := cfg0\<lparr>cfg_expandMutex := True, cfg_expandParent := True\<rparr>\<rparr>"

text \<open>
  Three root-level nodes \<open>x\<close> (0), \<open>y\<close> (1) and \<open>z\<close> (2); \<open>y\<close> has the switch
  \<^verbatim>\<open>expandMutex\<close>, the configuration does not.
\<close>

definition ex_roots :: TreeStore where
  "ex_roots = \<lparr> objs = (\<lambda>_. blank)(0 := mkNode ''x'' None Absent,
                   1 := (mkNode ''y'' None Absent)\<lparr>expandMutex := True\<rparr>,
                   2 := mkNode ''z'' None Absent),
     nodeMap = [''x'' \<mapsto> 0, ''y'' \<mapsto> 1, ''z'' \<mapsto> 2],
     checkedMap = Map.empty, expandedMap = Map.empty, activedMap = Map.empty,
     filterMap = Map.empty, tree_children = [0, 1, 2], config = cfg0 \<rparr>"

text \<open>The first tree with every node checked.\<close>

definition ex_checked :: TreeStore where
  "ex_checked = ex_store\<lparr>checkedMap :=
     [''r'' \<mapsto> True, ''a'' \<mapsto> True, ''b'' \<mapsto> True, ''d'' \<mapsto> True]\<rparr>"

text \<open>The first tree with \<open>a\<close> and its child checked.\<close>

definition ex_half :: TreeStore where
  "ex_half = ex_store\<lparr>checkedMap := [''a'' \<mapsto> True, ''d'' \<mapsto> True]\<rparr>"

text \<open>
  Measures for the example trees: the depth and the height of the four addresses, in the
  first tree and in the tree of the three siblings.
\<close>

definition ex_depth :: "ref \<Rightarrow> nat" where
  "ex_depth r = (if r = 3 then 2 else if r = 1 \<or> r = 2 then 1 else 0)"

definition ex_height :: "ref \<Rightarrow> nat" where
  "ex_height r = (if r = 0 then 2 else if r = 1 then 1 else 0)"

section \<open>The checked state\<close>

lemma every_opt_Some:
  "every_opt p xs = Some b \<Longrightarrow> b = (\<forall>x\<in>set xs. p x = Some True)"
  by (induction xs) (auto split: option.splits if_splits)

lemma every_opt_True: "every_opt p xs = Some True \<longleftrightarrow> (\<forall>x\<in>set xs. p x = Some True)"
  by (induction xs) (auto split: option.splits)

lemma every_opt_cong:
  "(\<And>x. x \<in> set xs \<Longrightarrow> p x = q x) \<Longrightarrow> every_opt p xs = every_opt q xs"
  by (induction xs) (auto split: option.splits)

lemma isChecked_live: "isChecked f s None n = isChecked f s (Some (checkedMap s)) n"
  by (cases f) simp_all

text \<open>
  C1, as the code has it. For a node that is in the node index, a call of
  \<^verbatim>\<open>isChecked\<close> that returns gives true exactly when the identity of the node reads as
  true in the map (the one handed over, or the live one); or the mode is not strict, the
  node has a non-empty array of children and \<^verbatim>\<open>isChecked\<close> gives true for each of them
  against the same map; or the mode is not strict, the node has no array of children or an
  empty one, and the identity of some ancestor reads as true in the map. In strict mode
  the last two cases are closed, so only the entry of the node counts.
\<close>

theorem isChecked_derivation:
  assumes att: "nodeMap s (nvalue (objs s n)) \<noteq> None"
      and m: "m = (case mp of Some m' \<Rightarrow> m' | None \<Rightarrow> checkedMap s)"
      and ret: "isChecked (Suc f) s mp n = Some b"
  shows "b \<longleftrightarrow>
           mapGet m (nvalue (objs s n))
         \<or> (\<not> cfg_checkStrictly (config s)
             \<and> (\<exists>cs. children (objs s n) = Nodes cs \<and> cs \<noteq> []
                      \<and> (\<forall>c\<in>set cs. isChecked f s (Some m) c = Some True)))
         \<or> (\<not> cfg_checkStrictly (config s)
             \<and> (children (objs s n) = Nodes [] \<or> (\<forall>cs. children (objs s n) \<noteq> Nodes cs))
             \<and> (\<exists>ps. getParents f s n = Some ps
                      \<and> (\<exists>p\<in>set ps. mapGet m (nvalue (objs s p)))))"
  using att ret unfolding m
  by (auto simp: Let_def list_ex_iff
           dest: every_opt_Some split: if_splits kids.splits option.splits)

text \<open>
  The theorem at the root of the example tree, against a map that holds its two children:
  the root has no entry and is checked through its children.
\<close>

theorem isChecked_derivation_witness:
  "nodeMap ex_store (nvalue (objs ex_store 0)) \<noteq> None
   \<and> isChecked (Suc 4) ex_store (Some [''a'' \<mapsto> True, ''b'' \<mapsto> True]) 0 = Some True
   \<and> \<not> mapGet [''a'' \<mapsto> True, ''b'' \<mapsto> True] (nvalue (objs ex_store 0))
   \<and> children (objs ex_store 0) = Nodes [1, 2]
   \<and> isChecked 4 ex_store (Some [''a'' \<mapsto> True, ''b'' \<mapsto> True]) 1 = Some True
   \<and> isChecked 4 ex_store (Some [''a'' \<mapsto> True, ''b'' \<mapsto> True]) 2 = Some True"
proof -
  let ?m = "[''a'' \<mapsto> True, ''b'' \<mapsto> True]"
  have att: "nodeMap ex_store (nvalue (objs ex_store 0)) \<noteq> None" by code_simp
  have ret: "isChecked (Suc 4) ex_store (Some ?m) 0 = Some True" by code_simp
  have nm: "\<not> mapGet ?m (nvalue (objs ex_store 0))" by code_simp
  have ch: "children (objs ex_store 0) = Nodes [1, 2]" by code_simp
  have pr: "getParents 4 ex_store 0 = Some []" by code_simp
  from isChecked_derivation[OF att _ ret, of ?m] nm ch pr
  have "\<forall>c\<in>set [1, 2]. isChecked 4 ex_store (Some ?m) c = Some True"
    by auto
  with att ret nm ch show ?thesis by simp
qed

text \<open>
  C1 as stated fails for a node whose array of children is empty. Removing \<open>d\<close> from the
  example tree leaves \<open>a\<close> with the empty array; against the map that holds the root,
  \<^verbatim>\<open>isChecked\<close> gives true for \<open>a\<close> (through its ancestor), while the stated condition,
  which takes the ancestors only for a node with no children list, is false.
\<close>

theorem isChecked_empty_children_counterexample:
  "(case remove 5 ex_store 3 of
      None \<Rightarrow> False
    | Some s \<Rightarrow>
        nodeMap s (nvalue (objs s 1)) \<noteq> None
        \<and> children (objs s 1) = Nodes []
        \<and> isChecked 5 s (Some [''r'' \<mapsto> True]) 1 = Some True
        \<and> \<not> isChecked_claimed 4 s [''r'' \<mapsto> True] 1)"
  by code_simp

section \<open>The indeterminate state\<close>

lemma someDiffer_Some:
  "someDiffer ind chk (Some b0) cs = Some b \<Longrightarrow>
     (b \<longrightarrow> (\<exists>c\<in>set cs. ind c = Some True \<or> chk c = Some (\<not> b0)))
   \<and> (\<not> b \<longrightarrow> (\<forall>c\<in>set cs. ind c = Some False \<and> chk c = Some b0))"
proof (induction cs)
  case Nil
  then show ?case by simp
next
  case (Cons c cs)
  from Cons.prems obtain i where i: "ind c = Some i"
    by (cases "ind c") auto
  show ?case
  proof (cases i)
    case True
    with Cons.prems i show ?thesis by auto
  next
    case False
    with Cons.prems i obtain b1 where b1: "chk c = Some b1"
      by (cases "chk c") auto
    show ?thesis
    proof (cases "b1 = b0")
      case True
      with Cons.prems i False b1 have "someDiffer ind chk (Some b0) cs = Some b"
        by simp
      from Cons.IH[OF this] i False b1 True show ?thesis by simp
    next
      case ne: False
      with Cons.prems i False b1 have "b" by auto
      moreover from ne have "b1 = (\<not> b0)" by auto
      ultimately show ?thesis using b1 by simp
    qed
  qed
qed

lemma someDiffer_None:
  assumes r: "someDiffer ind chk None cs = Some b"
  shows "b = ((\<exists>c\<in>set cs. ind c = Some True)
          \<or> (\<exists>c1\<in>set cs. \<exists>c2\<in>set cs. \<exists>b1. chk c1 = Some b1 \<and> chk c2 = Some (\<not> b1)))"
proof (cases cs)
  case Nil
  with r show ?thesis by auto
next
  case (Cons c cs')
  from r Cons obtain i where i: "ind c = Some i"
    by (cases "ind c") auto
  show ?thesis
  proof (cases i)
    case True
    with r Cons i show ?thesis by auto
  next
    case False
    with r Cons i obtain b1 where c1: "chk c = Some b1"
      by (cases "chk c") auto
    with r Cons i False have r': "someDiffer ind chk (Some b1) cs' = Some b"
      by simp
    note rest = someDiffer_Some[OF r']
    show ?thesis
    proof (cases b)
      case True
      with rest obtain c2 where c2: "c2 \<in> set cs'" "ind c2 = Some True \<or> chk c2 = Some (\<not> b1)"
        by auto
      from c2(2) show ?thesis
      proof
        assume "ind c2 = Some True"
        with c2(1) Cons True show ?thesis by auto
      next
        assume "chk c2 = Some (\<not> b1)"
        with c1 c2(1) Cons
        have "\<exists>c1\<in>set cs. \<exists>c2\<in>set cs. \<exists>b1. chk c1 = Some b1 \<and> chk c2 = Some (\<not> b1)"
          by auto
        with True show ?thesis by simp
      qed
    next
      case nb: False
      with rest have "\<forall>x\<in>set cs'. ind x = Some False \<and> chk x = Some b1" by simp
      with i False c1 Cons have all: "\<forall>x\<in>set cs. ind x = Some False \<and> chk x = Some b1"
        by simp
      then have "\<not> (\<exists>c\<in>set cs. ind c = Some True)" by auto
      moreover from all
      have "\<not> (\<exists>c1\<in>set cs. \<exists>c2\<in>set cs. \<exists>b1. chk c1 = Some b1 \<and> chk c2 = Some (\<not> b1))"
        by auto
      ultimately show ?thesis using nb by simp
    qed
  qed
qed

lemma isIndeterminate_children:
  assumes ret: "isIndeterminate (Suc f) s n = Some b"
  shows "b \<longleftrightarrow>
           (\<exists>cs. children (objs s n) = Nodes cs
              \<and> ((\<exists>c\<in>set cs. isIndeterminate f s c = Some True)
                 \<or> (\<exists>c1\<in>set cs. \<exists>c2\<in>set cs. \<exists>b1.
                       isChecked f s None c1 = Some b1 \<and> isChecked f s None c2 = Some (\<not> b1))))"
proof (cases "children (objs s n)")
  case (Nodes cs)
  with ret have "someDiffer (isIndeterminate f s) (isChecked f s None) None cs = Some b"
    by simp
  from someDiffer_None[OF this] Nodes show ?thesis by simp
qed (use ret in auto)

lemma isIndeterminate_leaf:
  "(\<forall>cs. children (objs s n) \<noteq> Nodes cs) \<Longrightarrow> isIndeterminate (Suc f) s n = Some False"
  by (cases "children (objs s n)") auto

text \<open>
  C7, as the code has it. A call of \<^verbatim>\<open>isIndeterminate\<close> that returns gives false for a
  node without an array of children; for a node with one it gives true exactly when
  \<^verbatim>\<open>isIndeterminate\<close> is true for some child or \<^verbatim>\<open>isChecked\<close> differs between two
  children. For a parent with exactly two children of which exactly one is checked it
  gives true, and \<^verbatim>\<open>isChecked\<close> of the parent is its own entry: false when the parent
  has no entry in the checked map, true when it has one (and is in the node index).
\<close>

theorem isIndeterminate_disagreement:
  assumes ret: "isIndeterminate (Suc f) s n = Some b"
  shows "((\<forall>cs. children (objs s n) \<noteq> Nodes cs) \<longrightarrow> \<not> b)
       \<and> (\<forall>cs. children (objs s n) = Nodes cs \<longrightarrow>
            (b \<longleftrightarrow> (\<exists>c\<in>set cs. isIndeterminate f s c = Some True)
                 \<or> (\<exists>c1\<in>set cs. \<exists>c2\<in>set cs. \<exists>b1.
                       isChecked f s None c1 = Some b1 \<and> isChecked f s None c2 = Some (\<not> b1))))
       \<and> (\<forall>c1 c2 b1. children (objs s n) = Nodes [c1, c2]
             \<and> isChecked f s None c1 = Some b1 \<and> isChecked f s None c2 = Some (\<not> b1) \<longrightarrow>
            b \<and> isChecked (Suc f) s None n
                  = Some (nodeMap s (nvalue (objs s n)) \<noteq> None
                          \<and> mapGet (checkedMap s) (nvalue (objs s n))))"
proof (intro conjI allI impI)
  assume "\<forall>cs. children (objs s n) \<noteq> Nodes cs"
  with ret isIndeterminate_leaf[of s n f] show "\<not> b" by simp
next
  fix cs assume "children (objs s n) = Nodes cs"
  with isIndeterminate_children[OF ret]
  show "b \<longleftrightarrow> (\<exists>c\<in>set cs. isIndeterminate f s c = Some True)
                 \<or> (\<exists>c1\<in>set cs. \<exists>c2\<in>set cs. \<exists>b1.
                       isChecked f s None c1 = Some b1 \<and> isChecked f s None c2 = Some (\<not> b1))"
    by simp
next
  fix c1 c2 b1
  assume h: "children (objs s n) = Nodes [c1, c2]
             \<and> isChecked f s None c1 = Some b1 \<and> isChecked f s None c2 = Some (\<not> b1)"
  with isIndeterminate_children[OF ret] show b by auto
next
  fix c1 c2 b1
  assume h: "children (objs s n) = Nodes [c1, c2]
             \<and> isChecked f s None c1 = Some b1 \<and> isChecked f s None c2 = Some (\<not> b1)"
  from h isChecked_live[symmetric]
  show "isChecked (Suc f) s None n
                  = Some (nodeMap s (nvalue (objs s n)) \<noteq> None
                          \<and> mapGet (checkedMap s) (nvalue (objs s n)))"
    by (cases b1) (simp_all add: Let_def)
qed

text \<open>
  The theorem at the root of the example tree after \<open>a\<close> has been checked and committed:
  of the two children exactly \<open>a\<close> is checked, the root is indeterminate and not checked.
\<close>

theorem isIndeterminate_disagreement_witness:
  "(case setChecked (getRelatedNodes 5) 5 ex_store 1 True True of
      None \<Rightarrow> False
    | Some (s, m) \<Rightarrow>
        isIndeterminate (Suc 4) s 0 = Some True
        \<and> children (objs s 0) = Nodes [1, 2]
        \<and> isChecked 4 s None 1 = Some True
        \<and> isChecked 4 s None 2 = Some (\<not> True)
        \<and> isChecked (Suc 4) s None 0 = Some False)"
proof -
  have "case setChecked (getRelatedNodes 5) 5 ex_store 1 True True of
      None \<Rightarrow> False
    | Some (s, m) \<Rightarrow>
        isIndeterminate (Suc 4) s 0 = Some True
        \<and> children (objs s 0) = Nodes [1, 2]
        \<and> isChecked 4 s None 1 = Some True
        \<and> isChecked 4 s None 2 = Some (\<not> True)
        \<and> \<not> (nodeMap s (nvalue (objs s 0)) \<noteq> None \<and> mapGet (checkedMap s) (nvalue (objs s 0)))"
    by code_simp
  then obtain s m where r: "setChecked (getRelatedNodes 5) 5 ex_store 1 True True = Some (s, m)"
    and i: "isIndeterminate (Suc 4) s 0 = Some True"
    and c: "children (objs s 0) = Nodes [1, 2]"
    and c1: "isChecked 4 s None 1 = Some True"
    and c2: "isChecked 4 s None 2 = Some (\<not> True)"
    and own: "\<not> (nodeMap s (nvalue (objs s 0)) \<noteq> None \<and> mapGet (checkedMap s) (nvalue (objs s 0)))"
    by (auto split: option.splits)
  from isIndeterminate_disagreement[OF i] c c1 c2 own
  have "isChecked (Suc 4) s None 0 = Some False" by auto
  with r i c c1 c2 show ?thesis by simp
qed

text \<open>
  C7 as stated fails in strict mode, where a parent keeps its own entry whatever its
  children are. In the strict example tree the root is checked and then \<open>a\<close>, both
  committed: of the two children of the root exactly \<open>a\<close> is checked, the root is
  indeterminate, and it is checked.
\<close>

theorem isIndeterminate_strict_counterexample:
  "(case setChecked (getRelatedNodes 5) 5 ex_strict 0 True True of
      None \<Rightarrow> False
    | Some (s1, m1) \<Rightarrow>
        (case setChecked (getRelatedNodes 5) 5 s1 1 True True of
           None \<Rightarrow> False
         | Some (s2, m2) \<Rightarrow>
             children (objs s2 0) = Nodes [1, 2]
             \<and> isChecked 5 s2 None 1 = Some True
             \<and> isChecked 5 s2 None 2 = Some False
             \<and> isIndeterminate 5 s2 0 = Some True
             \<and> isChecked 5 s2 None 0 = Some True))"
  by code_simp

section \<open>Visibility\<close>

text \<open>
  C6. When the walk up the parents of the node returns, \<^verbatim>\<open>getVisible\<close> returns, and its
  value is: false when the identity of the node is not in the node index; otherwise true
  exactly when \<^verbatim>\<open>isExpanded\<close> holds for every ancestor (for a root-level node there is
  none) or a filter is configured and accepts the model of the node. So a filter match
  makes the node visible under a collapsed ancestor, and a node under a collapsed ancestor
  that the filter does not accept is not visible.
\<close>

theorem getVisible_value:
  assumes "getParents f s n = Some ps"
  shows "map_option snd (getVisible f s n)
           = Some (nodeMap s (nvalue (objs s n)) \<noteq> None
                   \<and> ((\<forall>p\<in>set ps. isExpanded s None p)
                       \<or> (\<exists>flt. cfg_filter (config s) = Some flt \<and> flt (getTreeNodeModel s n))))"
  using assms
  by (cases "cfg_filter (config s)") (auto simp: getVisible_def Let_def list_all_iff)

text \<open>
  The theorem in the example tree with the filter that accepts \<open>d\<close> only, all nodes
  collapsed: \<open>d\<close> is visible, and its parent \<open>a\<close>, which the filter does not accept and
  whose parent is collapsed, is not.
\<close>

theorem getVisible_value_witness:
  "getParents 5 ex_filter 3 = Some [1, 0]
   \<and> \<not> isExpanded ex_filter None 1
   \<and> map_option snd (getVisible 5 ex_filter 3) = Some True
   \<and> map_option snd (getVisible 5 ex_filter 1) = Some False"
proof -
  have p: "getParents 5 ex_filter 3 = Some [1, 0]" by code_simp
  have e: "\<not> isExpanded ex_filter None 1" by code_simp
  have a: "nodeMap ex_filter (nvalue (objs ex_filter 3)) \<noteq> None" by code_simp
  have flt: "cfg_filter (config ex_filter) = Some (\<lambda>m. m_data m = ''d'')"
    by (simp add: ex_filter_def)
  have acc: "m_data (getTreeNodeModel ex_filter 3) = ''d''" by code_simp
  from getVisible_value[OF p] a flt acc
  have v: "map_option snd (getVisible 5 ex_filter 3) = Some True" by simp
  have "map_option snd (getVisible 5 ex_filter 1) = Some False" by code_simp
  with p e v show ?thesis by simp
qed

section \<open>Preview and commit\<close>

text \<open>
  C8. A call of \<^verbatim>\<open>setChecked\<close>, \<^verbatim>\<open>setExpanded\<close> or \<^verbatim>\<open>setActived\<close> without
  \<^verbatim>\<open>directly\<close> returns in the state it was called in: the live checked, expanded and
  activated maps (and everything else) are as before, and the writes are in the returned
  copy only. \<^verbatim>\<open>setActived\<close> and the collapsing \<^verbatim>\<open>setExpanded\<close> walk no links and
  always return.
\<close>

theorem preview_leaves_store:
  "(setChecked rel f s n v False = Some (s', m) \<longrightarrow> s' = s)
 \<and> (setExpanded f s n v False = Some (s', m) \<longrightarrow> s' = s)
 \<and> (setActived f s n v False = Some (s', m) \<longrightarrow> s' = s)
 \<and> (\<exists>m. setActived f s n v False = Some (s, m))
 \<and> (\<exists>m. setExpanded f s n False False = Some (s, m))"
  by (auto simp: setChecked_def setExpanded_def setActived_def Let_def
           split: option.splits if_splits)

text \<open>
  The theorem in the example tree: checking \<open>a\<close> in preview returns a map with \<open>a\<close> and
  leaves the live map empty; likewise for expanding.
\<close>

theorem preview_leaves_store_witness:
  "(case setChecked (getRelatedNodes 5) 5 ex_store 1 True False of
      None \<Rightarrow> False
    | Some (s', m) \<Rightarrow> m ''a'' = Some True \<and> checkedMap s' ''a'' = None
                      \<and> checkedMap s' = checkedMap ex_store)
   \<and> (case setExpanded 5 ex_store 1 True False of
      None \<Rightarrow> False
    | Some (s', m) \<Rightarrow> m ''a'' = Some True \<and> expandedMap s' ''a'' = None
                      \<and> expandedMap s' = expandedMap ex_store)"
proof -
  have "case setChecked (getRelatedNodes 5) 5 ex_store 1 True False of
      None \<Rightarrow> False | Some (s', m) \<Rightarrow> m ''a'' = Some True \<and> checkedMap s' ''a'' = None"
    by code_simp
  then obtain s1 m1 where
    r1: "setChecked (getRelatedNodes 5) 5 ex_store 1 True False = Some (s1, m1)"
    and v1: "m1 ''a'' = Some True" "checkedMap s1 ''a'' = None"
    by (auto split: option.splits)
  have "case setExpanded 5 ex_store 1 True False of
      None \<Rightarrow> False | Some (s', m) \<Rightarrow> m ''a'' = Some True \<and> expandedMap s' ''a'' = None"
    by code_simp
  then obtain s2 m2 where
    r2: "setExpanded 5 ex_store 1 True False = Some (s2, m2)"
    and v2: "m2 ''a'' = Some True" "expandedMap s2 ''a'' = None"
    by (auto split: option.splits)
  from preview_leaves_store[of "getRelatedNodes 5" 5 ex_store 1 True s1 m1] r1
  have e1: "s1 = ex_store" by simp
  from preview_leaves_store[of _ 5 ex_store 1 True s2 m2] r2
  have e2: "s2 = ex_store" by simp
  from r1 r2 v1 v2 e1 e2 show ?thesis by simp
qed

section \<open>What the recomputation leaves alone\<close>

lemma sameStruct_refl: "sameStruct s s"
  by (simp add: sameStruct_def)

lemma sameStruct_trans: "sameStruct s s' \<Longrightarrow> sameStruct s' s'' \<Longrightarrow> sameStruct s s''"
  by (simp add: sameStruct_def)

lemma keeps_refl: "keeps s s"
  by (simp add: keeps_def sameStruct_refl)

lemma keeps_trans: "keeps s s' \<Longrightarrow> keeps s' s'' \<Longrightarrow> keeps s s''"
  unfolding keeps_def using sameStruct_trans by auto

lemma getVisible_same:
  "getVisible f s n = Some (s', v) \<Longrightarrow> s' = s \<or> (\<exists>fm. s' = s\<lparr>filterMap := fm\<rparr>)"
  by (auto simp: getVisible_def Let_def updateFilterNodes_def split: if_splits option.splits)

lemma update_keeps:
  assumes "update f s n = Some s'"
  shows "keeps s s' \<and> checkedMap s' = checkedMap s"
proof -
  from assms obtain lv s2 vis where
    gv: "getVisible f (setNode s n (\<lambda>node. node\<lparr>vmIsFirst := isFirst s n, vmIsLast := isLast s n,
                      vmIsLeaf := isLeaf s n, level := lv, actived := isActived s None n,
                      expanded := isExpanded s None n\<rparr>)) n = Some (s2, vis)"
    and s': "s' = setNode s2 n (\<lambda>node. node\<lparr>visible := vis\<rparr>)"
    by (auto simp: update_def Let_def updated_def split: option.splits)
  from getVisible_same[OF gv] s' show ?thesis
    by (auto simp: keeps_def sameStruct_def setNode_def)
qed

lemma updateChecked_keeps:
  assumes "updateChecked f s n = Some s'"
  shows "keeps s s' \<and> filterMap s' = filterMap s
         \<and> (checkedMap s' = checkedMap s
            \<or> checkedMap s' = (checkedMap s)(nvalue (objs s n) \<mapsto> True))"
  using assms
  by (auto simp: updateChecked_def Let_def updated_def keeps_def sameStruct_def setNode_def
           split: if_splits option.splits)

lemma updateBoth_keeps: "updateBoth f s n = Some s' \<Longrightarrow> keeps s s'"
  by (auto simp: updateBoth_def split: Option.bind_splits
           dest!: update_keeps updateChecked_keeps intro: keeps_trans)

lemma forEach_keeps:
  assumes step: "\<And>s x s'. g s x = Some s' \<Longrightarrow> keeps s s'"
  shows "forEach g xs s = Some s' \<Longrightarrow> keeps s s'"
proof (induction xs arbitrary: s)
  case Nil
  then show ?case by (simp add: keeps_refl)
next
  case (Cons x xs)
  then show ?case
    by (auto split: option.splits dest!: step intro: keeps_trans)
qed

lemma updateChildren_keeps: "updateChildren f s n = Some s' \<Longrightarrow> keeps s s'"
proof (induction f arbitrary: s n s')
  case 0
  then show ?case by simp
next
  case (Suc f)
  show ?case
  proof (cases "children (objs s n)")
    case (Nodes cs)
    with Suc.prems
    have fe: "forEach (\<lambda>s' c. Option.bind (updateBoth f s' c) (\<lambda>s''. updateChildren f s'' c)) cs s
                = Some s'"
      by simp
    show ?thesis
    proof (rule forEach_keeps[OF _ fe])
      fix t x t'
      assume "Option.bind (updateBoth f t x) (\<lambda>s''. updateChildren f s'' x) = Some t'"
      then obtain u where "updateBoth f t x = Some u" "updateChildren f u x = Some t'"
        by (auto split: Option.bind_splits)
      with Suc.IH updateBoth_keeps show "keeps t t'"
        by (blast intro: keeps_trans)
    qed
  qed (use Suc.prems in \<open>auto simp: keeps_refl\<close>)
qed

lemma loadChildren_keeps: "loadChildren f s n = Some s' \<Longrightarrow> keeps s s'"
proof -
  have k: "keeps s (setNode s n (\<lambda>node. node\<lparr>loading := True\<rparr>))"
    by (simp add: keeps_def sameStruct_def setNode_def)
  assume "loadChildren f s n = Some s'"
  then show ?thesis
    using k by (auto simp: loadChildren_def keeps_refl split: if_splits
                     dest!: update_keeps intro: keeps_trans)
qed

lemma afterExpanded_keeps: "afterExpanded f s n = Some s' \<Longrightarrow> keeps s s'"
  by (auto simp: afterExpanded_def keeps_refl split: Option.bind_splits if_splits
           dest!: update_keeps loadChildren_keeps intro: keeps_trans)

section \<open>The checked map under recomputation\<close>

lemma grows_refl: "grows m m"
  by (simp add: grows_def)

lemma grows_trans: "grows m m' \<Longrightarrow> grows m' m'' \<Longrightarrow> grows m m''"
  by (simp add: grows_def)

lemma grows_upd: "grows m (m(k \<mapsto> True))"
  by (simp add: grows_def mapGet_def)

lemma parentsFrom_cong:
  "sameStruct s s' \<Longrightarrow> parentsFrom f s' x = parentsFrom f s x"
  by (induction f s x rule: parentsFrom.induct) (auto simp: sameStruct_def)

lemma getParents_cong:
  "sameStruct s s' \<Longrightarrow> getParents f s' n = getParents f s n"
  using parentsFrom_cong[of s s'] by (simp add: getParents_def sameStruct_def)

lemma isChecked_cong:
  "sameStruct s s' \<Longrightarrow> isChecked f s' (Some m) n = isChecked f s (Some m) n"
proof (induction f arbitrary: n)
  case 0
  then show ?case by simp
next
  case (Suc f)
  have ev: "every_opt (isChecked f s' (Some m)) cs = every_opt (isChecked f s (Some m)) cs" for cs
    by (rule every_opt_cong) (simp add: Suc)
  have st: "nodeMap s' = nodeMap s" "config s' = config s"
    "nvalue (objs s' r) = nvalue (objs s r)" "children (objs s' r) = children (objs s r)" for r
    using Suc.prems by (simp_all add: sameStruct_def)
  show ?case
    by (simp add: Let_def st ev getParents_cong[OF Suc.prems]
             cong: kids.case_cong option.case_cong)
qed

lemma isChecked_mono:
  "grows m m' \<Longrightarrow> isChecked f s (Some m) n = Some True
     \<Longrightarrow> isChecked f s (Some m') n = Some True"
proof (induction f arbitrary: n)
  case 0
  then show ?case by simp
next
  case (Suc f)
  let ?v = "nvalue (objs s n)"
  from Suc.prems(2) have att: "nodeMap s ?v \<noteq> None"
    by (auto simp: Let_def split: if_splits)
  show ?case
  proof (cases "mapGet m' ?v")
    case True
    with att show ?thesis by (simp add: Let_def)
  next
    case False
    with Suc.prems(1) have nm: "\<not> mapGet m ?v" by (auto simp: grows_def)
    show ?thesis
    proof (cases "(case children (objs s n) of Nodes cs \<Rightarrow> cs \<noteq> [] | _ \<Rightarrow> False)
                    \<and> \<not> cfg_checkStrictly (config s)")
      case True
      then obtain cs where cs: "children (objs s n) = Nodes cs" "cs \<noteq> []"
        by (auto split: kids.splits)
      with Suc.prems(2) att nm True have "every_opt (isChecked f s (Some m)) cs = Some True"
        by (simp add: Let_def)
      then have "every_opt (isChecked f s (Some m')) cs = Some True"
        using Suc.IH[OF Suc.prems(1)] by (simp add: every_opt_True)
      with cs att False True show ?thesis by (simp add: Let_def)
    next
      case nb: False
      with Suc.prems(2) att nm obtain ps where
        ps: "getParents f s n = Some ps" "list_ex (\<lambda>p. mapGet m (nvalue (objs s p))) ps"
        and ns: "\<not> cfg_checkStrictly (config s)"
        by (auto simp: Let_def split: if_splits option.splits)
      from ps(2) Suc.prems(1) have "list_ex (\<lambda>p. mapGet m' (nvalue (objs s p))) ps"
        by (auto simp: list_ex_iff grows_def)
      with ps(1) ns nb att False show ?thesis by (simp add: Let_def)
    qed
  qed
qed

lemma updateChecked_result:
  assumes c: "isCheckable s n" and r: "updateChecked f s n = Some s'"
  shows "\<exists>c. isChecked f s None n = Some c
           \<and> checkedMap s' = (if c then (checkedMap s)(nvalue (objs s n) \<mapsto> True)
                              else checkedMap s)"
proof -
  let ?s1 = "setNode s n (\<lambda>node. node\<lparr>vmCheckable := True\<rparr>)"
  have ss: "sameStruct s ?s1" by (simp add: sameStruct_def setNode_def)
  have cm: "checkedMap ?s1 = checkedMap s" by (simp add: setNode_def)
  have eq: "isChecked f ?s1 None n = isChecked f s None n"
    using isChecked_cong[OF ss, of f "checkedMap s" n] by (simp add: isChecked_live cm)
  from c r obtain b where b: "isChecked f ?s1 None n = Some b"
    by (auto simp: updateChecked_def Let_def split: option.splits)
  with c r
  have "checkedMap s' = (if b then (checkedMap s)(nvalue (objs s n) \<mapsto> True) else checkedMap s)"
    by (auto simp: updateChecked_def Let_def updated_def setNode_def split: option.splits)
  with b eq show ?thesis by auto
qed

lemma updateChecked_grows:
  assumes "updateChecked f s n = Some s'"
  shows "sameStruct s s' \<and> grows (checkedMap s) (checkedMap s')"
  using updateChecked_keeps[OF assms] by (auto simp: keeps_def grows_refl grows_upd)

lemma forEach_updateChecked_grows:
  "forEach (updateChecked f) rs s = Some s'
     \<Longrightarrow> sameStruct s s' \<and> grows (checkedMap s) (checkedMap s')"
proof (induction rs arbitrary: s)
  case Nil
  then show ?case by (simp add: sameStruct_refl grows_refl)
next
  case (Cons r rs)
  then obtain t where t: "updateChecked f s r = Some t" "forEach (updateChecked f) rs t = Some s'"
    by (auto split: option.splits)
  from updateChecked_grows[OF t(1)] Cons.IH[OF t(2)] show ?case
    by (blast intro: sameStruct_trans grows_trans)
qed

lemma isCheckable_cong: "sameStruct s s' \<Longrightarrow> isCheckable s' n = isCheckable s n"
  by (simp add: isCheckable_def sameStruct_def)

lemma forEach_updateChecked_writes:
  assumes "forEach (updateChecked f) rs s = Some s'" and "a \<in> set rs"
      and "isCheckable s a" and "isChecked f s None a = Some True"
  shows "checkedMap s' (nvalue (objs s a)) = Some True"
  using assms
proof (induction rs arbitrary: s)
  case Nil
  then show ?case by simp
next
  case (Cons r rs)
  from Cons.prems(1) obtain t where
    t: "updateChecked f s r = Some t" "forEach (updateChecked f) rs t = Some s'"
    by (auto split: option.splits)
  from updateChecked_grows[OF t(1)]
  have ss: "sameStruct s t" and gr: "grows (checkedMap s) (checkedMap t)" by simp_all
  have nv: "nvalue (objs t a) = nvalue (objs s a)" using ss by (simp add: sameStruct_def)
  show ?case
  proof (cases "r = a")
    case True
    from updateChecked_result[OF Cons.prems(3) t(1)[unfolded True]] Cons.prems(4)
    have "mapGet (checkedMap t) (nvalue (objs s a))" by (auto simp: mapGet_def)
    moreover from forEach_updateChecked_grows[OF t(2)]
    have "grows (checkedMap t) (checkedMap s')" by simp
    ultimately show ?thesis by (auto simp: grows_def mapGet_def)
  next
    case False
    with Cons.prems(2) have a: "a \<in> set rs" by simp
    have c: "isCheckable t a" using Cons.prems(3) isCheckable_cong[OF ss] by simp
    from Cons.prems(4) have "isChecked f s (Some (checkedMap s)) a = Some True"
      by (simp add: isChecked_live)
    then have "isChecked f s (Some (checkedMap t)) a = Some True"
      by (rule isChecked_mono[OF gr])
    then have "isChecked f t None a = Some True"
      by (simp add: isChecked_live isChecked_cong[OF ss])
    from Cons.IH[OF t(2) a c this] nv show ?thesis by simp
  qed
qed

section \<open>Enough fuel\<close>

text \<open>
  On a tree the loops return. A tree is given here by two measures: a depth \<open>d\<close> that
  falls from a node to its parent, and a height \<open>h\<close> that falls from a node to each of
  its children. Fuel beyond the measure makes the walk return.
\<close>

lemma parentsFrom_returns:
  assumes up: "\<And>r p. parent (objs s r) = Some p \<Longrightarrow> d p < d r"
  shows "(case x of None \<Rightarrow> True | Some p \<Rightarrow> d p < f) \<Longrightarrow> \<exists>ps. parentsFrom f s x = Some ps"
proof (induction f arbitrary: x)
  case 0
  then show ?case by (cases x) auto
next
  case (Suc f)
  show ?case
  proof (cases x)
    case None
    then show ?thesis by simp
  next
    case (Some p)
    have "case parent (objs s p) of None \<Rightarrow> True | Some q \<Rightarrow> d q < f"
    proof (cases "parent (objs s p)")
      case (Some q)
      from up[OF this] Suc.prems \<open>x = Some p\<close> show ?thesis by (simp add: Some)
    qed simp
    from Suc.IH[OF this] Some show ?thesis by auto
  qed
qed

lemma getParents_returns:
  assumes up: "\<And>r p. parent (objs s r) = Some p \<Longrightarrow> d p < d r"
      and "d n \<le> f"
  shows "\<exists>ps. getParents f s n = Some ps"
proof -
  have "case parent (objs s n) of None \<Rightarrow> True | Some p \<Rightarrow> d p < f"
  proof (cases "parent (objs s n)")
    case (Some p)
    from up[OF this] assms(2) show ?thesis by (simp add: Some)
  qed simp
  from parentsFrom_returns[of s d, OF up this] show ?thesis
    by (simp add: getParents_def)
qed

lemma those_returns: "(\<And>x. x \<in> set xs \<Longrightarrow> \<exists>y. x = Some y) \<Longrightarrow> \<exists>ys. those xs = Some ys"
proof (induction xs)
  case Nil
  then show ?case by simp
next
  case (Cons x xs)
  then obtain y ys where "x = Some y" "those xs = Some ys" by (meson list.set_intros)
  then show ?case by simp
qed

lemma walk_returns:
  assumes down: "\<And>r cs c. children (objs s r) = Nodes cs \<Longrightarrow> c \<in> set cs \<Longrightarrow> h c < h r"
  shows "h n < f \<Longrightarrow> \<exists>ws. walk f s n = Some ws"
proof (induction f arbitrary: n)
  case 0
  then show ?case by simp
next
  case (Suc f)
  show ?case
  proof (cases "children (objs s n)")
    case (Nodes cs)
    have "\<exists>y. x = Some y" if "x \<in> set (map (walk f s) cs)" for x
    proof -
      from that obtain c where c: "c \<in> set cs" "x = walk f s c" by auto
      from down[OF Nodes c(1)] Suc.prems have "h c < f" by simp
      from Suc.IH[OF this] c(2) show ?thesis by auto
    qed
    from those_returns[OF this] obtain ls where "those (map (walk f s) cs) = Some ls" by blast
    with Nodes show ?thesis by simp
  qed simp_all
qed

lemma every_opt_returns:
  "(\<And>x. x \<in> set xs \<Longrightarrow> \<exists>b. p x = Some b) \<Longrightarrow> \<exists>b. every_opt p xs = Some b"
proof (induction xs)
  case Nil
  then show ?case by auto
next
  case (Cons x xs)
  then obtain b where "p x = Some b" by (meson list.set_intros)
  moreover from Cons obtain b' where "every_opt p xs = Some b'" by (meson list.set_intros)
  ultimately show ?case by auto
qed

lemma isChecked_returns:
  assumes up: "\<And>r p. parent (objs s r) = Some p \<Longrightarrow> d p < d r"
      and down: "\<And>r cs c. children (objs s r) = Nodes cs \<Longrightarrow> c \<in> set cs \<Longrightarrow> h c < h r"
      and bound: "\<And>r. d r \<le> D"
  shows "h n + D < f \<Longrightarrow> \<exists>b. isChecked f s mp n = Some b"
proof (induction f arbitrary: n mp)
  case 0
  then show ?case by simp
next
  case (Suc f)
  have "d n \<le> f" using bound[of n] Suc.prems by simp
  from getParents_returns[of s d, OF up this] obtain ps where ps: "getParents f s n = Some ps"
    by blast
  have kids: "\<exists>b. every_opt (isChecked f s (Some m)) cs = Some b"
    if "children (objs s n) = Nodes cs" for cs m
  proof (rule every_opt_returns)
    fix c assume "c \<in> set cs"
    from down[OF that this] Suc.prems have "h c + D < f" by simp
    from Suc.IH[OF this] show "\<exists>b. isChecked f s (Some m) c = Some b" .
  qed
  show ?case
  proof (cases "children (objs s n)")
    case (Nodes cs)
    from kids[OF this] Nodes ps show ?thesis by (auto simp: Let_def)
  qed (use ps in \<open>auto simp: Let_def\<close>)
qed

lemma someDiffer_returns:
  "(\<And>c. c \<in> set cs \<Longrightarrow> \<exists>b. ind c = Some b) \<Longrightarrow> (\<And>c. c \<in> set cs \<Longrightarrow> \<exists>b. chk c = Some b)
     \<Longrightarrow> \<exists>b. someDiffer ind chk cc cs = Some b"
proof (induction cs arbitrary: cc)
  case Nil
  then show ?case by auto
next
  case (Cons c cs)
  from Cons.prems obtain i b where ib: "ind c = Some i" "chk c = Some b"
    by (meson list.set_intros)
  have "\<exists>b. someDiffer ind chk cc' cs = Some b" for cc'
    by (rule Cons.IH) (use Cons.prems in auto)
  with ib show ?case by (auto simp: Let_def)
qed

lemma isIndeterminate_returns:
  assumes up: "\<And>r p. parent (objs s r) = Some p \<Longrightarrow> d p < d r"
      and down: "\<And>r cs c. children (objs s r) = Nodes cs \<Longrightarrow> c \<in> set cs \<Longrightarrow> h c < h r"
      and bound: "\<And>r. d r \<le> D"
  shows "h n + D < f \<Longrightarrow> \<exists>b. isIndeterminate f s n = Some b"
proof (induction f arbitrary: n)
  case 0
  then show ?case by simp
next
  case (Suc f)
  show ?case
  proof (cases "children (objs s n)")
    case (Nodes cs)
    have "\<exists>b. someDiffer (isIndeterminate f s) (isChecked f s None) None cs = Some b"
    proof (rule someDiffer_returns)
      fix c assume "c \<in> set cs"
      from down[OF Nodes this] Suc.prems have hc: "h c + D < f" by simp
      from Suc.IH[OF hc] show "\<exists>b. isIndeterminate f s c = Some b" .
      from isChecked_returns[of s d h D, OF up down bound hc]
      show "\<exists>b. isChecked f s None c = Some b" .
    qed
    with Nodes show ?thesis by simp
  qed auto
qed

text \<open>The first example tree is a tree: the measures exist, and the loops return on it.\<close>

lemma ex_store_returns:
  "(\<exists>b. isChecked 5 ex_store mp n = Some b) \<and> (\<exists>i. isIndeterminate 5 ex_store n = Some i)"
proof -
  define d :: "ref \<Rightarrow> nat" where "d r = (if r = 3 then 2 else if r = 1 \<or> r = 2 then 1 else 0)" for r
  define h :: "ref \<Rightarrow> nat" where "h r = (if r = 0 then 2 else if r = 1 then 1 else 0)" for r
  have up: "d p < d r" if "parent (objs ex_store r) = Some p" for r p
    using that by (auto simp: ex_store_def mkNode_def blank_def d_def split: if_splits)
  have down: "h c < h r" if "children (objs ex_store r) = Nodes cs" "c \<in> set cs" for r cs c
    using that by (auto simp: ex_store_def mkNode_def blank_def h_def split: if_splits)
  have bound: "d r \<le> 2" for r by (simp add: d_def)
  have fuel: "h n + 2 < 5" by (simp add: h_def)
  have "\<exists>b. isChecked 5 ex_store mp n = Some b"
    using up down bound fuel by (rule isChecked_returns[where d = d and h = h and D = 2])
  moreover have "\<exists>i. isIndeterminate 5 ex_store n = Some i"
    using up down bound fuel by (rule isIndeterminate_returns[where d = d and h = h and D = 2])
  ultimately show ?thesis by blast
qed

text \<open>
  With the two measures bounded, the recomputation and the setters return as well: each
  loop of \<^verbatim>\<open>update\<close>, \<^verbatim>\<open>updateChecked\<close>, \<^verbatim>\<open>updateChildren\<close> and \<^verbatim>\<open>afterExpanded\<close> runs
  on a state with the structure of the first, so the measures stay valid throughout.
\<close>

lemma treeMeasures_sameStruct:
  "sameStruct s s' \<Longrightarrow> treeMeasures s d h B \<Longrightarrow> treeMeasures s' d h B"
  unfolding treeMeasures_def sameStruct_def by metis

lemma treeMeasures_keeps: "keeps s s' \<Longrightarrow> treeMeasures s d h B \<Longrightarrow> treeMeasures s' d h B"
  using treeMeasures_sameStruct by (auto simp: keeps_def)

lemma getParents_tree:
  assumes "treeMeasures s d h B" and "B \<le> f"
  shows "\<exists>ps. getParents f s n = Some ps"
proof (rule getParents_returns[where d = d])
  show "d p < d r" if "parent (objs s r) = Some p" for r p
    using assms(1) that by (simp add: treeMeasures_def)
  from assms show "d n \<le> f" by (auto simp: treeMeasures_def intro: order_trans)
qed

lemma walk_tree:
  assumes "treeMeasures s d h B" and "h n < f"
  shows "\<exists>ws. walk f s n = Some ws"
proof (rule walk_returns[where h = h])
  show "h c < h r" if "children (objs s r) = Nodes cs" "c \<in> set cs" for r cs c
    using assms(1) that by (auto simp: treeMeasures_def)
  from assms show "h n < f" by simp
qed

lemma isChecked_tree:
  assumes "treeMeasures s d h B" and "h n + B < f"
  shows "\<exists>b. isChecked f s mp n = Some b"
proof (rule isChecked_returns[where d = d and h = h and D = B])
  show "d p < d r" if "parent (objs s r) = Some p" for r p
    using assms(1) that by (simp add: treeMeasures_def)
  show "h c < h r" if "children (objs s r) = Nodes cs" "c \<in> set cs" for r cs c
    using assms(1) that by (auto simp: treeMeasures_def)
  show "d r \<le> B" for r using assms(1) by (simp add: treeMeasures_def)
  from assms show "h n + B < f" by simp
qed

lemma isIndeterminate_tree:
  assumes "treeMeasures s d h B" and "h n + B < f"
  shows "\<exists>b. isIndeterminate f s n = Some b"
proof (rule isIndeterminate_returns[where d = d and h = h and D = B])
  show "d p < d r" if "parent (objs s r) = Some p" for r p
    using assms(1) that by (simp add: treeMeasures_def)
  show "h c < h r" if "children (objs s r) = Nodes cs" "c \<in> set cs" for r cs c
    using assms(1) that by (auto simp: treeMeasures_def)
  show "d r \<le> B" for r using assms(1) by (simp add: treeMeasures_def)
  from assms show "h n + B < f" by simp
qed

lemma getVisible_tree:
  assumes "treeMeasures s d h B" and "B \<le> f"
  shows "\<exists>s' v. getVisible f s n = Some (s', v)"
proof -
  from getParents_tree[OF assms] obtain ps where "getParents f s n = Some ps" by blast
  then show ?thesis
    by (cases "cfg_filter (config s)") (auto simp: getVisible_def Let_def)
qed

lemma update_tree:
  assumes tm: "treeMeasures s d h B" and f: "B \<le> f"
  shows "\<exists>s'. update f s n = Some s'"
proof -
  from getParents_tree[OF assms] obtain ps where ps: "getParents f s n = Some ps" by blast
  let ?s1 = "setNode s n (\<lambda>node. node\<lparr>vmIsFirst := isFirst s n, vmIsLast := isLast s n,
                      vmIsLeaf := isLeaf s n, level := length ps, actived := isActived s None n,
                      expanded := isExpanded s None n\<rparr>)"
  have "sameStruct s ?s1" by (simp add: sameStruct_def setNode_def)
  from treeMeasures_sameStruct[OF this tm] have "treeMeasures ?s1 d h B" .
  from getVisible_tree[OF this f] obtain s2 v where "getVisible f ?s1 n = Some (s2, v)" by blast
  with ps show ?thesis by (simp add: update_def getLevel_def Let_def)
qed

lemma updateChecked_tree:
  assumes tm: "treeMeasures s d h B" and f: "h n + B < f"
  shows "\<exists>s'. updateChecked f s n = Some s'"
proof (cases "isCheckable s n")
  case False
  then show ?thesis by (simp add: updateChecked_def Let_def)
next
  case True
  let ?s1 = "setNode s n (\<lambda>node. node\<lparr>vmCheckable := True\<rparr>)"
  have "sameStruct s ?s1" by (simp add: sameStruct_def setNode_def)
  from treeMeasures_sameStruct[OF this tm] have t1: "treeMeasures ?s1 d h B" .
  from isChecked_tree[OF t1 f] obtain c where c: "isChecked f ?s1 None n = Some c" by blast
  let ?s2 = "setNode ?s1 n (\<lambda>node. node\<lparr>checked := c\<rparr>)"
  let ?s3 = "(if c then ?s2\<lparr>checkedMap := (checkedMap ?s2)(nvalue (objs ?s2 n) \<mapsto> True)\<rparr> else ?s2)"
  have "sameStruct s ?s3" by (simp add: sameStruct_def setNode_def)
  from treeMeasures_sameStruct[OF this tm] have "treeMeasures ?s3 d h B" .
  from isIndeterminate_tree[OF this f] obtain i where "isIndeterminate f ?s3 n = Some i" by blast
  with True c show ?thesis by (simp add: updateChecked_def Let_def)
qed

lemma updateBoth_tree:
  assumes tm: "treeMeasures s d h B" and f: "h n + B < f"
  shows "\<exists>s'. updateBoth f s n = Some s'"
proof -
  from f have "B \<le> f" by simp
  from update_tree[OF tm this] obtain t where t: "update f s n = Some t" by blast
  from update_keeps[OF t] tm have "treeMeasures t d h B" by (auto intro: treeMeasures_keeps)
  from updateChecked_tree[OF this f] t show ?thesis by (simp add: updateBoth_def)
qed

lemma forEach_returns:
  assumes "I s" and "\<And>t x. I t \<Longrightarrow> x \<in> set xs \<Longrightarrow> \<exists>t'. g t x = Some t' \<and> I t'"
  shows "\<exists>s'. forEach g xs s = Some s' \<and> I s'"
  using assms
proof (induction xs arbitrary: s)
  case Nil
  then show ?case by simp
next
  case (Cons x xs)
  from Cons.prems obtain t where t: "g s x = Some t" "I t" by (meson list.set_intros)
  have "\<exists>s'. forEach g xs t = Some s' \<and> I s'"
    by (rule Cons.IH[OF t(2)]) (use Cons.prems(2) in auto)
  with t show ?case by simp
qed

lemma updateChildren_tree:
  "treeMeasures s d h B \<Longrightarrow> h n + B < f \<Longrightarrow> \<exists>s'. updateChildren f s n = Some s'"
proof (induction f arbitrary: s n)
  case 0
  then show ?case by simp
next
  case (Suc f)
  show ?case
  proof (cases "children (objs s n)")
    case (Nodes cs)
    have "\<exists>s'. forEach (\<lambda>s' c. Option.bind (updateBoth f s' c) (\<lambda>s''. updateChildren f s'' c)) cs s
                  = Some s' \<and> treeMeasures s' d h B"
    proof (rule forEach_returns[where I = "\<lambda>t. treeMeasures t d h B"])
      show "treeMeasures s d h B" by (rule Suc.prems)
      fix t c assume t: "treeMeasures t d h B" and c: "c \<in> set cs"
      from Suc.prems(1) Nodes c have "h c < h n" by (auto simp: treeMeasures_def)
      with Suc.prems(2) have hc: "h c + B < f" by simp
      from updateBoth_tree[OF t hc] obtain u where u: "updateBoth f t c = Some u" by blast
      from updateBoth_keeps[OF u] t have tu: "treeMeasures u d h B" by (rule treeMeasures_keeps)
      from Suc.IH[OF tu hc] obtain w where w: "updateChildren f u c = Some w" by blast
      from updateChildren_keeps[OF w] tu have "treeMeasures w d h B" by (rule treeMeasures_keeps)
      with u w
      show "\<exists>t'. Option.bind (updateBoth f t c) (\<lambda>s''. updateChildren f s'' c) = Some t'
                  \<and> treeMeasures t' d h B"
        by simp
    qed
    with Nodes show ?thesis by auto
  qed simp_all
qed

lemma loadChildren_tree:
  assumes tm: "treeMeasures s d h B" and f: "B \<le> f"
  shows "\<exists>s'. loadChildren f s n = Some s'"
proof -
  let ?s1 = "setNode s n (\<lambda>node. node\<lparr>loading := True\<rparr>)"
  have "sameStruct s ?s1" by (simp add: sameStruct_def setNode_def)
  from treeMeasures_sameStruct[OF this tm] have "treeMeasures ?s1 d h B" .
  from update_tree[OF this f] show ?thesis by (auto simp: loadChildren_def)
qed

lemma afterExpanded_tree:
  assumes tm: "treeMeasures s d h B" and f: "B \<le> f"
  shows "\<exists>s'. afterExpanded f s n = Some s'"
proof -
  from update_tree[OF tm f] obtain t where t: "update f s n = Some t" by blast
  from update_keeps[OF t] tm have "treeMeasures t d h B" by (auto intro: treeMeasures_keeps)
  from loadChildren_tree[OF this f] t show ?thesis by (auto simp: afterExpanded_def)
qed

text \<open>On a tree, with fuel beyond the measures, \<^verbatim>\<open>setExpanded\<close> returns, committed or not.\<close>

lemma setExpanded_tree:
  assumes tm: "treeMeasures s d h B" and f: "h n + B < f"
  shows "\<exists>s' m'. setExpanded f s n v directly = Some (s', m')"
proof -
  from f have fB: "B \<le> f" by simp
  from getParents_tree[OF tm fB] obtain ps where ps: "getParents f s n = Some ps" by blast
  define m where "m = (if v then foldl (expandStep s) (expandedMap s)
                                  (n # (if cfg_expandParent (config s) then ps else []))
                       else (expandedMap s)(nvalue (objs s n) := None))"
  have pre: "(if v then
              (case (if cfg_expandParent (config s) then getParents f s n else Some []) of
                 None \<Rightarrow> None
               | Some ps \<Rightarrow> Some (foldl (expandStep s) (expandedMap s) (n # ps)))
            else Some ((expandedMap s)(nvalue (objs s n) := None))) = Some m"
    using ps by (simp add: m_def)
  show ?thesis
  proof (cases directly)
    case False
    with pre show ?thesis by (simp add: setExpanded_def)
  next
    case True
    let ?s0 = "s\<lparr>expandedMap := m\<rparr>"
    have "sameStruct s ?s0" by (simp add: sameStruct_def)
    from treeMeasures_sameStruct[OF this tm] have t0: "treeMeasures ?s0 d h B" .
    from afterExpanded_tree[OF t0 fB] obtain s1 where s1: "afterExpanded f ?s0 n = Some s1" by blast
    from afterExpanded_keeps[OF s1] t0 have t1: "treeMeasures s1 d h B" by (rule treeMeasures_keeps)
    from update_tree[OF t1 fB] obtain s2 where s2: "update f s1 n = Some s2" by blast
    from update_keeps[OF s2] t1 have t2: "treeMeasures s2 d h B" by (auto intro: treeMeasures_keeps)
    from updateChildren_tree[OF t2 f] obtain s3 where "updateChildren f s2 n = Some s3" by blast
    with pre True s1 s2 show ?thesis by (simp add: setExpanded_def)
  qed
qed

lemma checkedWrites_tree:
  assumes tm: "treeMeasures s d h B" and f: "h n + B < f"
  shows "\<exists>m. checkedWrites f s n v = Some m"
proof -
  from isChecked_tree[OF tm f] obtain cur where "isChecked f s None n = Some cur" by blast
  moreover from f have "h n < f" by simp
  from walk_tree[OF tm this] obtain ws where "walk f s n = Some ws" by blast
  moreover from f have "B \<le> f" by simp
  from getParents_tree[OF tm this] obtain ps where "getParents f s n = Some ps" by blast
  ultimately show ?thesis by (simp add: checkedWrites_def Let_def)
qed

lemma forEach_updateChecked_tree:
  assumes tm: "treeMeasures s d h B" and f: "2 * B < f"
  shows "\<exists>s'. forEach (updateChecked f) rs s = Some s'"
proof -
  have "\<exists>s'. forEach (updateChecked f) rs s = Some s' \<and> treeMeasures s' d h B"
  proof (rule forEach_returns[where I = "\<lambda>t. treeMeasures t d h B"])
    show "treeMeasures s d h B" by (rule tm)
    fix t x assume t: "treeMeasures t d h B"
    then have "h x \<le> B" by (simp add: treeMeasures_def)
    with f have "h x + B < f" by simp
    from updateChecked_tree[OF t this] obtain t' where t': "updateChecked f t x = Some t'" by blast
    from updateChecked_keeps[OF t'] t have "treeMeasures t' d h B" by (auto intro: treeMeasures_keeps)
    with t' show "\<exists>t'. updateChecked f t x = Some t' \<and> treeMeasures t' d h B" by simp
  qed
  then show ?thesis by blast
qed

text \<open>
  On a tree, with fuel beyond the measures, a committed \<^verbatim>\<open>setChecked\<close> returns when
  \<^verbatim>\<open>tree.getRelatedNodes\<close> does.
\<close>

lemma setChecked_tree:
  assumes tm: "treeMeasures s d h B" and f: "2 * B < f"
      and rel: "\<And>m. \<exists>rs. rel (s\<lparr>checkedMap := m\<rparr>) n = Some rs"
  shows "\<exists>s' m'. setChecked rel f s n v directly = Some (s', m')"
proof -
  from tm have "h n \<le> B" by (simp add: treeMeasures_def)
  with f have fn: "h n + B < f" by simp
  from checkedWrites_tree[OF tm fn] obtain m where m: "checkedWrites f s n v = Some m" by blast
  let ?s1 = "s\<lparr>checkedMap := m\<rparr>"
  have "sameStruct s ?s1" by (simp add: sameStruct_def)
  from treeMeasures_sameStruct[OF this tm] have t1: "treeMeasures ?s1 d h B" .
  from rel obtain rs where rs: "rel ?s1 n = Some rs" by blast
  from updateChecked_tree[OF t1 fn] obtain u where u: "updateChecked f ?s1 n = Some u" by blast
  from forEach_updateChecked_tree[OF t1 f] obtain w where "forEach (updateChecked f) rs ?s1 = Some w"
    by blast
  with m rs u show ?thesis by (auto simp: setChecked_def Let_def)
qed

text \<open>The example trees are trees, by the measures given for them.\<close>

lemma ex_tree:
  assumes par: "\<And>r. parent (objs s r) = parent (objs ex_store r)"
      and kid: "\<And>r. children (objs s r) = children (objs ex_store r)"
  shows "treeMeasures s ex_depth ex_height 2"
  unfolding treeMeasures_def
proof (intro conjI allI impI)
  fix r p assume "parent (objs s r) = Some p"
  then show "ex_depth p < ex_depth r"
    by (auto simp: par ex_store_def mkNode_def blank_def ex_depth_def split: if_splits)
next
  fix r cs c assume "children (objs s r) = Nodes cs \<and> c \<in> set cs"
  then show "ex_height c < ex_height r"
    by (auto simp: kid ex_store_def mkNode_def blank_def ex_height_def split: if_splits)
next
  fix r show "ex_depth r \<le> 2" by (simp add: ex_depth_def)
  show "ex_height r \<le> 2" by (simp add: ex_height_def)
qed

lemma ex_mutex_tree: "treeMeasures ex_mutex ex_depth ex_height 2"
  unfolding treeMeasures_def
proof (intro conjI allI impI)
  fix r p assume "parent (objs ex_mutex r) = Some p"
  then show "ex_depth p < ex_depth r"
    by (auto simp: ex_mutex_def mkNode_def blank_def ex_depth_def split: if_splits)
next
  fix r cs c assume "children (objs ex_mutex r) = Nodes cs \<and> c \<in> set cs"
  then show "ex_height c < ex_height r"
    by (auto simp: ex_mutex_def mkNode_def blank_def ex_height_def split: if_splits)
next
  fix r show "ex_depth r \<le> 2" by (simp add: ex_depth_def)
  show "ex_height r \<le> 2" by (simp add: ex_height_def)
qed

section \<open>What the propagation can add\<close>

lemma updateChecked_map:
  assumes r: "updateChecked f s n = Some s'"
  shows "checkedMap s' = (if isCheckable s n \<and> isChecked f s None n = Some True
                          then (checkedMap s)(nvalue (objs s n) \<mapsto> True) else checkedMap s)"
proof (cases "isCheckable s n")
  case False
  with r show ?thesis by (auto simp: updateChecked_def Let_def setNode_def)
next
  case True
  from updateChecked_result[OF True r] True show ?thesis by auto
qed

lemma forEach_updateChecked_adds:
  "forEach (updateChecked f) rs s = Some s' \<Longrightarrow>
     checkedMap s' k = checkedMap s k
     \<or> (checkedMap s' k = Some True \<and> (\<exists>r\<in>set rs. k = nvalue (objs s r) \<and> isCheckable s r))"
proof (induction rs arbitrary: s)
  case Nil
  then show ?case by simp
next
  case (Cons r rs)
  then obtain t where t: "updateChecked f s r = Some t" "forEach (updateChecked f) rs t = Some s'"
    by (auto split: option.splits)
  from updateChecked_grows[OF t(1)] have ss: "sameStruct s t" by simp
  then have nv: "nvalue (objs t q) = nvalue (objs s q)" for q by (simp add: sameStruct_def)
  note ck = isCheckable_cong[OF ss]
  from Cons.IH[OF t(2)]
  have "checkedMap s' k = checkedMap t k
     \<or> (checkedMap s' k = Some True \<and> (\<exists>q\<in>set rs. k = nvalue (objs s q) \<and> isCheckable s q))"
    by (simp only: nv ck)
  then show ?case
  proof
    assume eq: "checkedMap s' k = checkedMap t k"
    show ?thesis
    proof (cases "checkedMap t k = checkedMap s k")
      case True
      with eq show ?thesis by simp
    next
      case False
      have yes: "isCheckable s r \<and> isChecked f s None r = Some True"
      proof (rule ccontr)
        assume no: "\<not> (isCheckable s r \<and> isChecked f s None r = Some True)"
        from updateChecked_map[OF t(1)] have "checkedMap t = checkedMap s"
          unfolding if_not_P[OF no] .
        with False show False by simp
      qed
      from updateChecked_map[OF t(1)]
      have upd: "checkedMap t = (checkedMap s)(nvalue (objs s r) \<mapsto> True)"
        unfolding if_P[OF yes] .
      have k: "k = nvalue (objs s r)"
      proof (rule ccontr)
        assume "k \<noteq> nvalue (objs s r)"
        with upd have "checkedMap t k = checkedMap s k" by simp
        with False show False by simp
      qed
      with upd have "checkedMap t k = Some True" by simp
      with eq k yes have "checkedMap s' k = Some True \<and> r \<in> set (r # rs)
                          \<and> k = nvalue (objs s r) \<and> isCheckable s r"
        by simp
      then show ?thesis by blast
    qed
  next
    assume "checkedMap s' k = Some True \<and> (\<exists>q\<in>set rs. k = nvalue (objs s q) \<and> isCheckable s q)"
    then obtain q where "checkedMap s' k = Some True" "q \<in> set (r # rs)"
      "k = nvalue (objs s q)" "isCheckable s q"
      by auto
    then show ?thesis by blast
  qed
qed

lemma parentsFrom_region:
  assumes cl: "\<And>u p. u \<in> U \<Longrightarrow> parent (objs s u) = Some p \<Longrightarrow> p \<in> U"
  shows "(\<And>p. x = Some p \<Longrightarrow> p \<in> U) \<Longrightarrow> parentsFrom f s x = Some ps \<Longrightarrow> set ps \<subseteq> U"
proof (induction f arbitrary: x ps)
  case 0
  then show ?case by (cases x) auto
next
  case (Suc f)
  show ?case
  proof (cases x)
    case None
    with Suc.prems show ?thesis by simp
  next
    case (Some p)
    with Suc.prems(2) obtain ps' where
      ps': "parentsFrom f s (parent (objs s p)) = Some ps'" "ps = p # ps'"
      by (auto split: option.splits)
    from Suc.prems(1) Some have p: "p \<in> U" by simp
    have "set ps' \<subseteq> U"
      by (rule Suc.IH[OF _ ps'(1)]) (use cl p in auto)
    with p ps'(2) show ?thesis by simp
  qed
qed

lemma closedRegion_cong: "sameStruct s s' \<Longrightarrow> closedRegion s' us = closedRegion s us"
  by (simp add: closedRegion_def sameStruct_def)

text \<open>
  In a closed region without a true entry no node is checked: a node with children has an
  unchecked child in the region, and the ancestors of a node without are in the region.
\<close>

lemma isChecked_region:
  assumes cl: "closedRegion s us" and un: "\<forall>u\<in>set us. \<not> mapGet m (nvalue (objs s u))"
  shows "u \<in> set us \<Longrightarrow> isChecked f s (Some m) u \<noteq> Some True"
proof (induction f arbitrary: u)
  case 0
  then show ?case by simp
next
  case (Suc f)
  from cl Suc.prems
  have reg: "(case parent (objs s u) of None \<Rightarrow> True | Some p \<Rightarrow> p \<in> set us)
           \<and> (case children (objs s u) of
                 Nodes cs \<Rightarrow> cs = [] \<or> list_ex (\<lambda>c. c \<in> set us) cs
               | _ \<Rightarrow> True)"
    by (simp add: closedRegion_def list_all_iff)
  have par: "p \<in> set us" if "parent (objs s u) = Some p" for p
    using reg that by simp
  have kid: "\<exists>c\<in>set cs. c \<in> set us" if "children (objs s u) = Nodes cs" "cs \<noteq> []" for cs
    using reg that by (simp add: list_ex_iff)
  from un Suc.prems have nm: "\<not> mapGet m (nvalue (objs s u))" by simp
  show ?case
  proof
    assume t: "isChecked (Suc f) s (Some m) u = Some True"
    show False
    proof (cases "(case children (objs s u) of Nodes cs \<Rightarrow> cs \<noteq> [] | _ \<Rightarrow> False)
                    \<and> \<not> cfg_checkStrictly (config s)")
      case True
      then obtain cs where cs: "children (objs s u) = Nodes cs" "cs \<noteq> []"
        by (auto split: kids.splits)
      with t nm True have "every_opt (isChecked f s (Some m)) cs = Some True"
        by (simp add: Let_def split: if_splits)
      then have all: "\<forall>c\<in>set cs. isChecked f s (Some m) c = Some True"
        by (simp add: every_opt_True)
      from kid[OF cs] obtain c where "c \<in> set cs" "c \<in> set us" by blast
      with all Suc.IH show False by blast
    next
      case False
      with t nm obtain ps where
        ps: "getParents f s u = Some ps" "list_ex (\<lambda>p. mapGet m (nvalue (objs s p))) ps"
        by (auto simp: Let_def split: if_splits option.splits)
      have "set ps \<subseteq> set us"
      proof (rule parentsFrom_region[where U = "set us" and x = "parent (objs s u)"])
        fix v p assume v: "v \<in> set us" and pv: "parent (objs s v) = Some p"
        from cl v have "case parent (objs s v) of None \<Rightarrow> True | Some p \<Rightarrow> p \<in> set us"
          by (simp add: closedRegion_def list_all_iff)
        with pv show "p \<in> set us" by simp
      next
        fix p assume "parent (objs s u) = Some p"
        then show "p \<in> set us" by (rule par)
      next
        from ps(1) show "parentsFrom f s (parent (objs s u)) = Some ps" by (simp add: getParents_def)
      qed
      with ps(2) un show False by (auto simp: list_ex_iff)
    qed
  qed
qed

lemma forEach_updateChecked_region:
  assumes "forEach (updateChecked f) rs s = Some s'" and "closedRegion s us"
      and "\<forall>u\<in>set us. \<not> mapGet (checkedMap s) (nvalue (objs s u))" and "set rs \<subseteq> set us"
  shows "checkedMap s' = checkedMap s"
  using assms
proof (induction rs arbitrary: s)
  case Nil
  then show ?case by simp
next
  case (Cons r rs)
  from Cons.prems(1) obtain t where
    t: "updateChecked f s r = Some t" "forEach (updateChecked f) rs t = Some s'"
    by (auto split: option.splits)
  from Cons.prems(4) have r: "r \<in> set us" by simp
  from isChecked_region[OF Cons.prems(2,3) r, of f] have "isChecked f s None r \<noteq> Some True"
    by (simp add: isChecked_live)
  then have no: "\<not> (isCheckable s r \<and> isChecked f s None r = Some True)" by simp
  from updateChecked_map[OF t(1)] have eq: "checkedMap t = checkedMap s"
    unfolding if_not_P[OF no] .
  from updateChecked_grows[OF t(1)] have ss: "sameStruct s t" by simp
  then have nv: "nvalue (objs t q) = nvalue (objs s q)" for q by (simp add: sameStruct_def)
  have "checkedMap s' = checkedMap t"
    by (rule Cons.IH[OF t(2)])
       (use Cons.prems closedRegion_cong[OF ss] eq nv in auto)
  with eq show ?case by simp
qed

lemma walk_cong: "sameStruct s s' \<Longrightarrow> walk f s' n = walk f s n"
proof (induction f arbitrary: n)
  case 0
  then show ?case by simp
next
  case (Suc f)
  have c: "children (objs s' n) = children (objs s n)" using Suc.prems by (simp add: sameStruct_def)
  have w: "walk f s' = walk f s" using Suc.IH[OF Suc.prems] by (intro ext)
  show ?case by (simp add: c w split: kids.splits)
qed

lemma getRelatedNodes_cong:
  "sameStruct s s' \<Longrightarrow> getRelatedNodes f s' n = getRelatedNodes f s n"
  by (simp add: getRelatedNodes_def getParents_cong walk_cong split: option.splits)

section \<open>Expanding under a mutex\<close>

lemma foldl_delete:
  "foldl (\<lambda>m' x. m'(g x := None)) m xs k = (if k \<in> g ` set xs then None else m k)"
  by (induction xs arbitrary: m) auto

lemma expandStep_other:
  "k \<notin> set (family s c) \<Longrightarrow> expandStep s m c k = m k"
  by (auto simp: expandStep_def family_def Let_def foldl_delete)

lemma expandStep_self:
  "expandStep s m c (nvalue (objs s c)) = Some True"
  by (simp add: expandStep_def Let_def)

lemma expandStep_sibling:
  assumes "(case parent (objs s c) of
              Some p \<Rightarrow> isExpandMutex s p | None \<Rightarrow> cfg_expandMutex (config s))"
      and "sib \<in> set (getSiblings s c)" and "nvalue (objs s sib) \<noteq> nvalue (objs s c)"
  shows "expandStep s m c (nvalue (objs s sib)) = None"
  using assms by (auto simp: expandStep_def Let_def foldl_delete)

lemma foldl_expandStep_other:
  "\<forall>c\<in>set cs. k \<notin> set (family s c) \<Longrightarrow> foldl (expandStep s) m cs k = m k"
  by (induction cs arbitrary: m) (auto simp: expandStep_other)

lemma foldl_expandStep_candidate:
  assumes "pairwiseDisjoint (map (family s) cs)" and "c \<in> set cs" and "k \<in> set (family s c)"
  shows "foldl (expandStep s) m cs k
           = expandStep s (foldl (expandStep s) m (takeWhile (\<lambda>x. x \<noteq> c) cs)) c k"
  using assms
proof (induction cs arbitrary: m)
  case Nil
  then show ?case by simp
next
  case (Cons x cs)
  show ?case
  proof (cases "x = c")
    case True
    from Cons.prems(1,3) True have "\<forall>y\<in>set cs. k \<notin> set (family s y)"
      by (auto simp: list_all_iff)
    with True show ?thesis by (simp add: foldl_expandStep_other)
  next
    case False
    with Cons show ?thesis by simp
  qed
qed

text \<open>
  C5, as the code has it. The candidates of \<^verbatim>\<open>setExpanded(true)\<close> are the node and, when
  \<^verbatim>\<open>expandParent\<close> is configured, its ancestors. The mutex flag that governs a candidate
  is the \<^verbatim>\<open>expandMutex\<close> option of the configuration when the candidate is root-level,
  and \<^verbatim>\<open>isExpandMutex\<close> of its parent otherwise (the option of the configuration or the
  parent's own switch). Whenever the call returns, every candidate is in the resulting
  map, and under an enabled governing flag none of its siblings with another identity is;
  with \<^verbatim>\<open>directly\<close> the resulting map is the live map of the state after the call, and
  without it the state is the one before the call. And the call does return, committed or
  not, on a tree with fuel beyond the height of the node and the bound of the measures:
  the loops of \<^verbatim>\<open>afterExpanded\<close>, \<^verbatim>\<open>update\<close> and \<^verbatim>\<open>updateChildren\<close> that follow the writes
  all end. The identities are taken to be distinct between the rounds: no identity of one
  candidate or of its siblings is one of another candidate or of its siblings.
\<close>

theorem setExpanded_mutex:
  assumes ps: "(if cfg_expandParent (config s) then getParents f s n else Some []) = Some ps"
      and dis: "pairwiseDisjoint (map (family s) (n # ps))"
      and c: "c \<in> set (n # ps)"
  shows "(\<forall>s' m'. setExpanded f s n True directly = Some (s', m') \<longrightarrow>
            m' (nvalue (objs s c)) = Some True
          \<and> ((case parent (objs s c) of
                 Some p \<Rightarrow> isExpandMutex s p | None \<Rightarrow> cfg_expandMutex (config s))
              \<longrightarrow> (\<forall>sib\<in>set (getSiblings s c).
                     nvalue (objs s sib) \<noteq> nvalue (objs s c) \<longrightarrow> m' (nvalue (objs s sib)) = None))
          \<and> (if directly then expandedMap s' = m' else s' = s))
       \<and> (treeMeasures s d h B \<and> h n + B < f \<longrightarrow>
            (\<exists>s' m'. setExpanded f s n True directly = Some (s', m')))"
proof (intro conjI allI impI)
  fix s' m' assume ret: "setExpanded f s n True directly = Some (s', m')"
  let ?m1 = "foldl (expandStep s) (expandedMap s) (n # ps)"
  show fr: "if directly then expandedMap s' = m' else s' = s"
    using ret by (auto simp: setExpanded_def split: option.splits if_splits)
  have m': "m' = ?m1"
  proof (cases directly)
    case False
    with ret ps show ?thesis by (auto simp: setExpanded_def split: option.splits if_splits)
  next
    case True
    with ret ps obtain s1 s2 where
      a: "afterExpanded f (s\<lparr>expandedMap := ?m1\<rparr>) n = Some s1"
      and u: "update f s1 n = Some s2" and uc: "updateChildren f s2 n = Some s'"
      and eq: "m' = expandedMap s'"
      by (auto simp: setExpanded_def split: option.splits if_splits Option.bind_splits)
    from afterExpanded_keeps[OF a] update_keeps[OF u] updateChildren_keeps[OF uc] eq
    show ?thesis by (simp add: keeps_def)
  qed
  have self: "nvalue (objs s c) \<in> set (family s c)" by (simp add: family_def)
  show "m' (nvalue (objs s c)) = Some True"
    unfolding m' foldl_expandStep_candidate[OF dis c self] by (rule expandStep_self)
  have "m' (nvalue (objs s sib)) = None"
    if "(case parent (objs s c) of
           Some p \<Rightarrow> isExpandMutex s p | None \<Rightarrow> cfg_expandMutex (config s))"
      and "sib \<in> set (getSiblings s c)" and "nvalue (objs s sib) \<noteq> nvalue (objs s c)" for sib
  proof -
    from that(2) have "nvalue (objs s sib) \<in> set (family s c)" by (simp add: family_def)
    from foldl_expandStep_candidate[OF dis c this] expandStep_sibling[OF that]
    show ?thesis unfolding m' by simp
  qed
  then show "\<forall>sib\<in>set (getSiblings s c).
               nvalue (objs s sib) \<noteq> nvalue (objs s c) \<longrightarrow> m' (nvalue (objs s sib)) = None"
    if "(case parent (objs s c) of
           Some p \<Rightarrow> isExpandMutex s p | None \<Rightarrow> cfg_expandMutex (config s))"
    using that by blast
next
  assume "treeMeasures s d h B \<and> h n + B < f"
  then show "\<exists>s' m'. setExpanded f s n True directly = Some (s', m')"
    using setExpanded_tree by blast
qed

text \<open>
  The theorem for three siblings under a parent with the mutex switch: \<open>a\<close> is expanded,
  \<open>b\<close> is expanded and committed; the call returns, and afterwards \<open>a\<close> is out of the
  live map and \<open>b\<close> in it. With the ancestors as candidates and a node that has a child:
  in the first tree with \<open>b\<close> expanded, \<open>a\<close> is expanded and committed; the call returns,
  its loop over the children of \<open>a\<close> included, and the live map holds \<open>a\<close> and the root,
  and not \<open>b\<close>, the sibling of \<open>a\<close>. And in preview: expanding \<open>d\<close> gives a map with
  \<open>d\<close>, its parent \<open>a\<close> and the root, and without \<open>b\<close>, in the unchanged state.
\<close>

theorem setExpanded_mutex_witness:
  "treeMeasures ex_mutex ex_depth ex_height 2
   \<and> (case setExpanded 5 ex_mutex 2 True True of
      None \<Rightarrow> False
    | Some (s', m') \<Rightarrow>
        expandedMap ex_mutex ''a'' = Some True
        \<and> expandedMap s' ''b'' = Some True \<and> expandedMap s' ''a'' = None
        \<and> expandedMap s' ''c'' = None)
   \<and> treeMeasures ex_accordion ex_depth ex_height 2
   \<and> children (objs ex_accordion 1) = Nodes [3]
   \<and> (case setExpanded 5 ex_accordion 1 True True of
        None \<Rightarrow> False
      | Some (s', m') \<Rightarrow>
          expandedMap ex_accordion ''b'' = Some True
          \<and> expandedMap s' ''a'' = Some True \<and> expandedMap s' ''r'' = Some True
          \<and> expandedMap s' ''b'' = None)
   \<and> (case setExpanded 5 ex_accordion 3 True False of
        None \<Rightarrow> False
      | Some (s', m') \<Rightarrow>
          m' ''d'' = Some True \<and> m' ''a'' = Some True \<and> m' ''r'' = Some True
          \<and> m' ''b'' = None \<and> expandedMap s' ''d'' = None)"
proof -
  have tm: "treeMeasures ex_mutex ex_depth ex_height 2" by (rule ex_mutex_tree)
  have hs: "ex_height 2 + 2 < (5::nat)" "ex_height 1 + 2 < (5::nat)" "ex_height 3 + 2 < (5::nat)"
    by (simp_all add: ex_height_def)
  have ps: "(if cfg_expandParent (config ex_mutex) then getParents 5 ex_mutex 2 else Some [])
              = Some []"
    by code_simp
  have dis: "pairwiseDisjoint (map (family ex_mutex) [2])" by simp
  have mut: "(case parent (objs ex_mutex 2) of
                Some p \<Rightarrow> isExpandMutex ex_mutex p
              | None \<Rightarrow> cfg_expandMutex (config ex_mutex))"
    by code_simp
  have sibs: "getSiblings ex_mutex 2 = [1, 2, 3]" by code_simp
  have vals: "nvalue (objs ex_mutex 1) = ''a''" "nvalue (objs ex_mutex 2) = ''b''"
    "nvalue (objs ex_mutex 3) = ''c''"
    by code_simp+
  have before: "expandedMap ex_mutex ''a'' = Some True" by code_simp
  note one = setExpanded_mutex[OF ps dis, of 2 True ex_depth ex_height 2]
  from one[THEN conjunct2] tm hs obtain s' m' where
    r: "setExpanded 5 ex_mutex 2 True True = Some (s', m')" by auto
  from one[THEN conjunct1, rule_format, OF _ r] mut sibs vals
  have one': "m' ''b'' = Some True \<and> m' ''a'' = None \<and> m' ''c'' = None \<and> expandedMap s' = m'"
    by simp
  let ?t = ex_accordion
  have tm2: "treeMeasures ?t ex_depth ex_height 2"
    by (rule ex_tree) (simp_all add: ex_accordion_def)
  have kid: "children (objs ?t 1) = Nodes [3]" by code_simp
  have psa: "(if cfg_expandParent (config ?t) then getParents 5 ?t 1 else Some [])
              = Some [0]"
    by code_simp
  have disa: "pairwiseDisjoint (map (family ?t) [1, 0])" by code_simp
  have ps2: "(if cfg_expandParent (config ?t) then getParents 5 ?t 3 else Some [])
              = Some [1, 0]"
    by code_simp
  have dis2: "pairwiseDisjoint (map (family ?t) [3, 1, 0])" by code_simp
  have mut2: "(case parent (objs ?t 1) of
                Some p \<Rightarrow> isExpandMutex ?t p
              | None \<Rightarrow> cfg_expandMutex (config ?t))"
    by code_simp
  have sibs2: "getSiblings ?t 1 = [1, 2]" by code_simp
  have vals2: "nvalue (objs ?t 1) = ''a''" "nvalue (objs ?t 2) = ''b''"
    "nvalue (objs ?t 3) = ''d''" "nvalue (objs ?t 0) = ''r''"
    by code_simp+
  have before2: "expandedMap ?t ''b'' = Some True" "expandedMap ?t ''d'' = None" by code_simp+
  note two = setExpanded_mutex[OF psa disa, of _ True ex_depth ex_height 2]
  from two[of 1, THEN conjunct2] tm2 hs obtain u' l' where
    ra: "setExpanded 5 ?t 1 True True = Some (u', l')" by auto
  from two[of 1, THEN conjunct1, rule_format, OF _ ra] mut2 sibs2 vals2
  have ca: "l' ''a'' = Some True \<and> l' ''b'' = None \<and> expandedMap u' = l'" by simp
  from two[of 0, THEN conjunct1, rule_format, OF _ ra] vals2
  have cr: "l' ''r'' = Some True" by simp
  note three = setExpanded_mutex[OF ps2 dis2, of _ False ex_depth ex_height 2]
  from three[of 3, THEN conjunct2] tm2 hs obtain t' k' where
    r2: "setExpanded 5 ?t 3 True False = Some (t', k')" by auto
  from three[of 1, THEN conjunct1, rule_format, OF _ r2] mut2 sibs2 vals2
  have a: "k' ''a'' = Some True \<and> k' ''b'' = None \<and> t' = ?t" by simp
  from three[of 3, THEN conjunct1, rule_format, OF _ r2] vals2
  have d: "k' ''d'' = Some True" by simp
  from three[of 0, THEN conjunct1, rule_format, OF _ r2] vals2
  have rr: "k' ''r'' = Some True" by simp
  from tm r one' before tm2 kid ra ca cr r2 before2 a d rr show ?thesis by simp
qed

text \<open>
  C5 as stated fails for a root-level candidate: its own switch does not govern it, the
  option of the configuration does. With three root-level nodes of which \<open>y\<close> has the
  switch and the configuration has not, \<open>x\<close> is expanded and then \<open>y\<close>, both committed:
  the flag in the words of the specification is on for \<open>y\<close>, and \<open>x\<close>, a sibling of \<open>y\<close>,
  is still in the map.
\<close>

theorem setExpanded_root_mutex_counterexample:
  "(case setExpanded 5 ex_roots 0 True True of
      None \<Rightarrow> False
    | Some (s1, m1) \<Rightarrow>
        parent (objs s1 1) = None \<and> expandMutex (objs s1 1)
        \<and> governingMutex_claimed s1 1
        \<and> getSiblings s1 1 = [0, 1, 2]
        \<and> (case setExpanded 5 s1 1 True True of
              None \<Rightarrow> False
            | Some (s2, m2) \<Rightarrow>
                expandedMap s2 ''x'' = Some True \<and> expandedMap s2 ''y'' = Some True))"
  by code_simp

section \<open>Writing the checked map\<close>

lemma foldl_write:
  "foldl (\<lambda>m x. if v then m(g x \<mapsto> True) else m(g x := None)) m0 xs k
     = (if k \<in> g ` set xs then (if v then Some True else None) else m0 k)"
  by (induction xs arbitrary: m0) auto

text \<open>
  C2, as the code has it. Outside strict mode, when the walks of \<^verbatim>\<open>setChecked\<close> return,
  its writes are these. For a checkable node and a value other than its checked state:
  the entry of every node of the subtree, the node included, is written (for true) or
  removed (for false), and the entry of every ancestor is removed. Otherwise the map is
  left as it was. Without \<^verbatim>\<open>directly\<close> the map so written is the copy that the call
  returns from, in the unchanged state.

  With \<^verbatim>\<open>directly\<close> the writes go to the live map, on which the propagation then runs
  over the related nodes (\<open>rel\<close> stands for \<^verbatim>\<open>tree.getRelatedNodes\<close>). Whenever the
  committed call returns, the map it returns from is the live map of the state after the
  call, and every entry of that map is as written, or is true and belongs to a checkable
  related node: the propagation only adds. After a check every identity of the subtree
  is in the live map. After an uncheck, where the subtree and the ancestors form a closed
  list and the related nodes are among them, the live map is exactly the written one:
  the propagation adds nothing back. And on a tree with fuel beyond twice the bound of
  the measures the committed call does return. The identities of the subtree are taken to
  differ from those of the ancestors.
\<close>

theorem setChecked_writes:
  assumes ns: "\<not> cfg_checkStrictly (config s)"
      and cur: "isChecked f s None n = Some cur"
      and ws: "walk f s n = Some ws"
      and ps: "getParents f s n = Some ps"
      and dis: "list_all (\<lambda>w. list_all (\<lambda>p. nvalue (objs s w) \<noteq> nvalue (objs s p)) ps) ws"
  shows "\<exists>m'. checkedWrites f s n v = Some m'
           \<and> setChecked rel f s n v False = Some (s, m')
           \<and> (if isCheckable s n \<and> v \<noteq> cur
              then (\<forall>w\<in>set ws. m' (nvalue (objs s w)) = (if v then Some True else None))
                 \<and> (\<forall>p\<in>set ps. m' (nvalue (objs s p)) = None)
              else m' = checkedMap s)
           \<and> (\<forall>rs. rel (s\<lparr>checkedMap := m'\<rparr>) n = Some rs \<longrightarrow>
                 (\<forall>s' m''. setChecked rel f s n v True = Some (s', m'') \<longrightarrow>
                     m'' = checkedMap s'
                   \<and> (\<forall>k. checkedMap s' k = m' k
                          \<or> (checkedMap s' k = Some True
                              \<and> (\<exists>r\<in>set rs. k = nvalue (objs s r) \<and> isCheckable s r)))
                   \<and> (isCheckable s n \<and> v \<and> \<not> cur \<longrightarrow>
                        (\<forall>w\<in>set ws. checkedMap s' (nvalue (objs s w)) = Some True))
                   \<and> (isCheckable s n \<and> \<not> v \<and> cur \<and> closedRegion s (ws @ ps)
                        \<and> set rs \<subseteq> set (ws @ ps) \<longrightarrow> checkedMap s' = m'))
               \<and> (treeMeasures s d h B \<and> 2 * B < f \<longrightarrow>
                     (\<exists>s'. setChecked rel f s n v True = Some (s', checkedMap s'))))"
proof -
  define m' where "m' = (if isCheckable s n \<and> v \<noteq> cur
      then foldl (\<lambda>m node. m(nvalue (objs s node) := None))
               (foldl (\<lambda>m node. if v then m(nvalue (objs s node) \<mapsto> True)
                                 else m(nvalue (objs s node) := None)) (checkedMap s) ws) ps
      else checkedMap s)"
  have m'_yes: "m' = foldl (\<lambda>m node. m(nvalue (objs s node) := None))
               (foldl (\<lambda>m node. if v then m(nvalue (objs s node) \<mapsto> True)
                                 else m(nvalue (objs s node) := None)) (checkedMap s) ws) ps"
    if "isCheckable s n \<and> v \<noteq> cur"
    unfolding m'_def using that by (rule if_P)
  have m'_no: "m' = checkedMap s" if "\<not> (isCheckable s n \<and> v \<noteq> cur)"
    unfolding m'_def using that by (rule if_not_P)
  have cw: "checkedWrites f s n v = Some m'"
  proof (cases "isCheckable s n \<and> v \<noteq> cur")
    case True
    with m'_yes[OF True] ns cur ws ps show ?thesis by (simp add: checkedWrites_def Let_def)
  next
    case False
    with m'_no[OF False] cur show ?thesis by (auto simp: checkedWrites_def Let_def)
  qed
  then have sc: "setChecked rel f s n v False = Some (s, m')"
    by (simp add: setChecked_def)
  have a: "m' (nvalue (objs s p)) = None" if "isCheckable s n \<and> v \<noteq> cur" "p \<in> set ps" for p
    using that(2) by (simp add: m'_yes[OF that(1)] foldl_delete)
  have b: "m' (nvalue (objs s w)) = (if v then Some True else None)"
    if "isCheckable s n \<and> v \<noteq> cur" "w \<in> set ws" for w
  proof -
    from dis that(2) have "nvalue (objs s w) \<notin> (\<lambda>p. nvalue (objs s p)) ` set ps"
      by (auto simp: list_all_iff)
    with that(2) show ?thesis
      by (simp add: m'_yes[OF that(1)] foldl_delete foldl_write[where g = "\<lambda>x. nvalue (objs s x)"])
  qed
  have un: "m' (nvalue (objs s w)) = None" if "isCheckable s n \<and> v \<noteq> cur" "\<not> v" "w \<in> set ws" for w
    using that(2,3)
    by (simp add: m'_yes[OF that(1)] foldl_delete foldl_write[where g = "\<lambda>x. nvalue (objs s x)"])
  have third: "if isCheckable s n \<and> v \<noteq> cur
              then (\<forall>w\<in>set ws. m' (nvalue (objs s w)) = (if v then Some True else None))
                 \<and> (\<forall>p\<in>set ps. m' (nvalue (objs s p)) = None)
              else m' = checkedMap s"
  proof (cases "isCheckable s n \<and> v \<noteq> cur")
    case True
    from a[OF True] b[OF True] show ?thesis unfolding if_P[OF True] by blast
  next
    case False
    from m'_no[OF False] show ?thesis unfolding if_not_P[OF False] .
  qed
  let ?s1 = "s\<lparr>checkedMap := m'\<rparr>"
  have fourth: "(\<forall>s' m''. setChecked rel f s n v True = Some (s', m'') \<longrightarrow>
                     m'' = checkedMap s'
                   \<and> (\<forall>k. checkedMap s' k = m' k
                          \<or> (checkedMap s' k = Some True
                              \<and> (\<exists>r\<in>set rs. k = nvalue (objs s r) \<and> isCheckable s r)))
                   \<and> (isCheckable s n \<and> v \<and> \<not> cur \<longrightarrow>
                        (\<forall>w\<in>set ws. checkedMap s' (nvalue (objs s w)) = Some True))
                   \<and> (isCheckable s n \<and> \<not> v \<and> cur \<and> closedRegion s (ws @ ps)
                        \<and> set rs \<subseteq> set (ws @ ps) \<longrightarrow> checkedMap s' = m'))
               \<and> (treeMeasures s d h B \<and> 2 * B < f \<longrightarrow>
                     (\<exists>s'. setChecked rel f s n v True = Some (s', checkedMap s')))"
    if rs: "rel ?s1 n = Some rs" for rs
  proof (intro conjI allI impI ballI)
    fix s' m'' assume r: "setChecked rel f s n v True = Some (s', m'')"
    from r cw rs ns have fe: "forEach (updateChecked f) rs ?s1 = Some s'"
      by (simp add: setChecked_def Let_def split: option.splits)
    from r cw rs ns show eq: "m'' = checkedMap s'"
      by (auto simp: setChecked_def Let_def)
    have adds: "checkedMap s' k = m' k
             \<or> (checkedMap s' k = Some True
                 \<and> (\<exists>r\<in>set rs. k = nvalue (objs s r) \<and> isCheckable s r))" for k
    proof -
      have "isCheckable ?s1 r = isCheckable s r" for r by (simp add: isCheckable_def)
      with forEach_updateChecked_adds[OF fe, of k] show ?thesis by simp
    qed
    then show "checkedMap s' k = m' k
             \<or> (checkedMap s' k = Some True
                 \<and> (\<exists>r\<in>set rs. k = nvalue (objs s r) \<and> isCheckable s r))" for k .
    show "checkedMap s' (nvalue (objs s w)) = Some True"
      if h: "isCheckable s n \<and> v \<and> \<not> cur" and w: "w \<in> set ws" for w
    proof -
      from h have c: "isCheckable s n \<and> v \<noteq> cur" by auto
      from b[OF c w] h have "m' (nvalue (objs s w)) = Some True" by simp
      with adds[of "nvalue (objs s w)"] show ?thesis by auto
    qed
    show "checkedMap s' = m'"
      if h: "isCheckable s n \<and> \<not> v \<and> cur \<and> closedRegion s (ws @ ps) \<and> set rs \<subseteq> set (ws @ ps)"
    proof -
      from h have c: "isCheckable s n \<and> v \<noteq> cur" and nv: "\<not> v" by auto
      have cl: "closedRegion ?s1 (ws @ ps)" using h by (simp add: closedRegion_def)
      have "\<not> mapGet (checkedMap ?s1) (nvalue (objs ?s1 u))" if "u \<in> set (ws @ ps)" for u
      proof -
        from that have "u \<in> set ws \<or> u \<in> set ps" by simp
        then have "m' (nvalue (objs s u)) = None"
          using un[OF c nv] a[OF c] by blast
        then show ?thesis by (simp add: mapGet_def)
      qed
      then have "\<forall>u\<in>set (ws @ ps). \<not> mapGet (checkedMap ?s1) (nvalue (objs ?s1 u))" by blast
      from forEach_updateChecked_region[OF fe cl this] h show ?thesis by simp
    qed
  next
    assume tm: "treeMeasures s d h B \<and> 2 * B < f"
    have "sameStruct s ?s1" by (simp add: sameStruct_def)
    with tm have "treeMeasures ?s1 d h B" by (auto intro: treeMeasures_sameStruct)
    from forEach_updateChecked_tree[OF this, of f rs] tm obtain s' where
      "forEach (updateChecked f) rs ?s1 = Some s'" by blast
    with cw rs ns show "\<exists>s'. setChecked rel f s n v True = Some (s', checkedMap s')"
      by (simp add: setChecked_def Let_def)
  qed
  show ?thesis
  proof (rule exI[of _ m'], intro conjI)
    show "checkedWrites f s n v = Some m'" by (rule cw)
    show "setChecked rel f s n v False = Some (s, m')" by (rule sc)
    show "if isCheckable s n \<and> v \<noteq> cur
              then (\<forall>w\<in>set ws. m' (nvalue (objs s w)) = (if v then Some True else None))
                 \<and> (\<forall>p\<in>set ps. m' (nvalue (objs s p)) = None)
              else m' = checkedMap s" by (rule third)
    show "\<forall>rs. rel (s\<lparr>checkedMap := m'\<rparr>) n = Some rs \<longrightarrow>
                 (\<forall>s' m''. setChecked rel f s n v True = Some (s', m'') \<longrightarrow>
                     m'' = checkedMap s'
                   \<and> (\<forall>k. checkedMap s' k = m' k
                          \<or> (checkedMap s' k = Some True
                              \<and> (\<exists>r\<in>set rs. k = nvalue (objs s r) \<and> isCheckable s r)))
                   \<and> (isCheckable s n \<and> v \<and> \<not> cur \<longrightarrow>
                        (\<forall>w\<in>set ws. checkedMap s' (nvalue (objs s w)) = Some True))
                   \<and> (isCheckable s n \<and> \<not> v \<and> cur \<and> closedRegion s (ws @ ps)
                        \<and> set rs \<subseteq> set (ws @ ps) \<longrightarrow> checkedMap s' = m'))
               \<and> (treeMeasures s d h B \<and> 2 * B < f \<longrightarrow>
                     (\<exists>s'. setChecked rel f s n v True = Some (s', checkedMap s')))"
      using fourth by (intro allI impI)
  qed
qed

text \<open>
  The theorem in the example tree with every node checked. Unchecking \<open>a\<close> in preview
  returns a map without \<open>a\<close>, without its child \<open>d\<close> and without the root. Unchecking
  \<open>a\<close> and committing, with the related nodes of the specification: the call returns, and
  the live map after it is without \<open>a\<close>, \<open>d\<close> and the root, which it held before, and
  still holds \<open>b\<close>. Setting \<open>a\<close> to true, which it is, writes nothing. And in the tree
  where \<open>a\<close> and its child are checked: checking \<open>b\<close> and committing returns, and the
  live map after the call holds \<open>b\<close>.
\<close>

theorem setChecked_writes_witness:
  "\<not> cfg_checkStrictly (config ex_checked)
   \<and> isChecked 5 ex_checked None 1 = Some True
   \<and> walk 5 ex_checked 1 = Some [1, 3]
   \<and> getParents 5 ex_checked 1 = Some [0]
   \<and> closedRegion ex_checked ([1, 3] @ [0])
   \<and> treeMeasures ex_checked ex_depth ex_height 2
   \<and> checkedMap ex_checked ''r'' = Some True
   \<and> (case setChecked (getRelatedNodes 5) 5 ex_checked 1 False False of
        None \<Rightarrow> False
      | Some (s', m') \<Rightarrow> m' ''a'' = None \<and> m' ''d'' = None \<and> m' ''r'' = None)
   \<and> (case setChecked (getRelatedNodes 5) 5 ex_checked 1 False True of
        None \<Rightarrow> False
      | Some (s', m') \<Rightarrow>
          checkedMap s' ''a'' = None \<and> checkedMap s' ''d'' = None
          \<and> checkedMap s' ''r'' = None \<and> checkedMap s' ''b'' = Some True)
   \<and> (case setChecked (getRelatedNodes 5) 5 ex_checked 1 True False of
        None \<Rightarrow> False
      | Some (s', m') \<Rightarrow> m' ''a'' = Some True \<and> m' ''r'' = Some True)
   \<and> isChecked 5 ex_half None 2 = Some False
   \<and> checkedMap ex_half ''b'' = None
   \<and> (case setChecked (getRelatedNodes 5) 5 ex_half 2 True True of
        None \<Rightarrow> False
      | Some (s', m') \<Rightarrow> checkedMap s' ''b'' = Some True \<and> m' ''b'' = Some True)"
proof -
  let ?s = ex_checked
  let ?rel = "getRelatedNodes 5"
  have ns: "\<not> cfg_checkStrictly (config ?s)" by code_simp
  have cur: "isChecked 5 ?s None 1 = Some True" by code_simp
  have ws: "walk 5 ?s 1 = Some [1, 3]" by code_simp
  have ps: "getParents 5 ?s 1 = Some [0]" by code_simp
  have dis: "list_all (\<lambda>w. list_all (\<lambda>p. nvalue (objs ?s w) \<noteq> nvalue (objs ?s p)) [0]) [1, 3]"
    by code_simp
  have ck: "isCheckable ?s 1" by code_simp
  have cl: "closedRegion ?s ([1, 3] @ [0])" by code_simp
  have tm: "treeMeasures ?s ex_depth ex_height 2"
    by (rule ex_tree) (simp_all add: ex_checked_def)
  have vals: "nvalue (objs ?s 1) = ''a''" "nvalue (objs ?s 3) = ''d''" "nvalue (objs ?s 0) = ''r''"
    by code_simp+
  have before: "checkedMap ?s ''r'' = Some True" by code_simp
  have keep: "case checkedWrites 5 ?s 1 False of None \<Rightarrow> False | Some m \<Rightarrow> m ''b'' = Some True"
    by code_simp
  have related: "getRelatedNodes 5 ?s 1 = Some [0, 1, 3]" by code_simp
  from setChecked_writes[OF ns cur ws ps dis, of False ?rel ex_depth ex_height 2]
  obtain m' where cw: "checkedWrites 5 ?s 1 False = Some m'"
    and pre: "setChecked ?rel 5 ?s 1 False False = Some (?s, m')"
    and wr: "if isCheckable ?s 1 \<and> False \<noteq> True
              then (\<forall>w\<in>set [1, 3]. m' (nvalue (objs ?s w)) = (if False then Some True else None))
                 \<and> (\<forall>p\<in>set [0]. m' (nvalue (objs ?s p)) = None)
              else m' = checkedMap ?s"
    and com: "\<forall>rs. ?rel (?s\<lparr>checkedMap := m'\<rparr>) 1 = Some rs \<longrightarrow>
                 (\<forall>s' m''. setChecked ?rel 5 ?s 1 False True = Some (s', m'') \<longrightarrow>
                     m'' = checkedMap s'
                   \<and> (\<forall>k. checkedMap s' k = m' k
                          \<or> (checkedMap s' k = Some True
                              \<and> (\<exists>r\<in>set rs. k = nvalue (objs ?s r) \<and> isCheckable ?s r)))
                   \<and> (isCheckable ?s 1 \<and> False \<and> \<not> True \<longrightarrow>
                        (\<forall>w\<in>set [1, 3]. checkedMap s' (nvalue (objs ?s w)) = Some True))
                   \<and> (isCheckable ?s 1 \<and> \<not> False \<and> True \<and> closedRegion ?s ([1, 3] @ [0])
                        \<and> set rs \<subseteq> set ([1, 3] @ [0]) \<longrightarrow> checkedMap s' = m'))
               \<and> (treeMeasures ?s ex_depth ex_height 2 \<and> 2 * 2 < (5::nat) \<longrightarrow>
                     (\<exists>s'. setChecked ?rel 5 ?s 1 False True = Some (s', checkedMap s')))"
    by blast
  from wr ck vals have m: "m' ''a'' = None" "m' ''d'' = None" "m' ''r'' = None" by simp_all
  from keep cw have mb: "m' ''b'' = Some True" by simp
  have "sameStruct ?s (?s\<lparr>checkedMap := m'\<rparr>)" by (simp add: sameStruct_def)
  from getRelatedNodes_cong[OF this] related
  have rs: "?rel (?s\<lparr>checkedMap := m'\<rparr>) 1 = Some [0, 1, 3]" by simp
  from com[rule_format, OF rs] tm obtain s' where
    r: "setChecked ?rel 5 ?s 1 False True = Some (s', checkedMap s')"
    by auto
  from com[rule_format, OF rs, THEN conjunct1, rule_format, OF r] ck cl
  have "checkedMap s' = m'" by simp
  with m mb have live: "checkedMap s' ''a'' = None" "checkedMap s' ''d'' = None"
    "checkedMap s' ''r'' = None" "checkedMap s' ''b'' = Some True" by simp_all
  have entries: "checkedMap ?s ''a'' = Some True" by code_simp
  from setChecked_writes[OF ns cur ws ps dis, of True ?rel ex_depth ex_height 2]
  obtain k' where same: "setChecked ?rel 5 ?s 1 True False = Some (?s, k')"
    and "if isCheckable ?s 1 \<and> True \<noteq> True
          then (\<forall>w\<in>set [1, 3]. k' (nvalue (objs ?s w)) = (if True then Some True else None))
             \<and> (\<forall>p\<in>set [0]. k' (nvalue (objs ?s p)) = None)
          else k' = checkedMap ?s"
    by blast
  then have k': "k' = checkedMap ?s" by simp
  let ?h = ex_half
  have nsh: "\<not> cfg_checkStrictly (config ?h)" by code_simp
  have curh: "isChecked 5 ?h None 2 = Some False" by code_simp
  have wsh: "walk 5 ?h 2 = Some [2]" by code_simp
  have psh: "getParents 5 ?h 2 = Some [0]" by code_simp
  have dish: "list_all (\<lambda>w. list_all (\<lambda>p. nvalue (objs ?h w) \<noteq> nvalue (objs ?h p)) [0]) [2]"
    by code_simp
  have ckh: "isCheckable ?h 2" by code_simp
  have tmh: "treeMeasures ?h ex_depth ex_height 2"
    by (rule ex_tree) (simp_all add: ex_half_def)
  have vh: "nvalue (objs ?h 2) = ''b''" by code_simp
  have beforeh: "checkedMap ?h ''b'' = None" by code_simp
  have relatedh: "getRelatedNodes 5 ?h 2 = Some [0, 2]" by code_simp
  from setChecked_writes[OF nsh curh wsh psh dish, of True ?rel ex_depth ex_height 2]
  obtain mh where
    comh: "\<forall>rs. ?rel (?h\<lparr>checkedMap := mh\<rparr>) 2 = Some rs \<longrightarrow>
                 (\<forall>s' m''. setChecked ?rel 5 ?h 2 True True = Some (s', m'') \<longrightarrow>
                     m'' = checkedMap s'
                   \<and> (\<forall>k. checkedMap s' k = mh k
                          \<or> (checkedMap s' k = Some True
                              \<and> (\<exists>r\<in>set rs. k = nvalue (objs ?h r) \<and> isCheckable ?h r)))
                   \<and> (isCheckable ?h 2 \<and> True \<and> \<not> False \<longrightarrow>
                        (\<forall>w\<in>set [2]. checkedMap s' (nvalue (objs ?h w)) = Some True))
                   \<and> (isCheckable ?h 2 \<and> \<not> True \<and> False \<and> closedRegion ?h ([2] @ [0])
                        \<and> set rs \<subseteq> set ([2] @ [0]) \<longrightarrow> checkedMap s' = mh))
               \<and> (treeMeasures ?h ex_depth ex_height 2 \<and> 2 * 2 < (5::nat) \<longrightarrow>
                     (\<exists>s'. setChecked ?rel 5 ?h 2 True True = Some (s', checkedMap s')))"
    by blast
  have "sameStruct ?h (?h\<lparr>checkedMap := mh\<rparr>)" by (simp add: sameStruct_def)
  from getRelatedNodes_cong[OF this] relatedh
  have rsh: "?rel (?h\<lparr>checkedMap := mh\<rparr>) 2 = Some [0, 2]" by simp
  from comh[rule_format, OF rsh] tmh obtain sh where
    rh: "setChecked ?rel 5 ?h 2 True True = Some (sh, checkedMap sh)"
    by auto
  from comh[rule_format, OF rsh, THEN conjunct1, rule_format, OF rh] ckh vh
  have liveh: "checkedMap sh ''b'' = Some True" by simp
  from live r pre m ns cur ws ps cl tm before same k' entries curh beforeh rh liveh
  show ?thesis by simp
qed

text \<open>
  C2 as stated fails with \<^verbatim>\<open>directly\<close>: the propagation runs whether or not the call
  wrote, and it writes the entry of every checkable node it finds checked. In the example
  tree with the switches, \<open>a\<close> and then \<open>b\<close> are checked and committed; the root, not
  checkable, gets no entry. Then the root is made checkable, and \<open>b\<close> is set to true
  again: the value is the checked state of \<open>b\<close>, and the live map after the call holds
  the root, which the map before the call did not.
\<close>

theorem setChecked_commit_counterexample:
  "(case setChecked (getRelatedNodes 5) 5 ex_switch 1 True True of
      None \<Rightarrow> False
    | Some (s1, m1) \<Rightarrow>
        (case setChecked (getRelatedNodes 5) 5 s1 2 True True of
           None \<Rightarrow> False
         | Some (s2, m2) \<Rightarrow>
             (let s3 = set_state s2 0 \<lparr> st_expandMutex = None, st_activable = None,
                         st_checkable = Some True, st_disabled = None, st_draggable = None,
                         st_loading = None \<rparr>
              in isCheckable s3 2
                 \<and> isChecked 5 s3 None 2 = Some True
                 \<and> checkedMap s3 ''r'' = None
                 \<and> (case setChecked (getRelatedNodes 5) 5 s3 2 True True of
                       None \<Rightarrow> False
                     | Some (s4, m4) \<Rightarrow>
                         checkedMap s4 ''r'' = Some True \<and> m4 ''r'' = Some True))))"
  by code_simp

section \<open>Propagation of the checked state\<close>

text \<open>
  C10, as the code has it. Whenever \<^verbatim>\<open>updateChecked\<close> returns: for a checkable node it
  has written the identity of the node into the live checked map when \<^verbatim>\<open>isChecked\<close> is
  true, and has left the map as it was when it is false, so that no entry is removed; for
  a node that is not checkable it has left the map as it was. On a tree with fuel beyond
  the height of the node and the bound of the measures it does return.

  After a committed \<^verbatim>\<open>setChecked(true)\<close> outside strict mode (\<open>rel\<close> stands for
  \<^verbatim>\<open>tree.getRelatedNodes\<close>, \<open>m1\<close> for the map that \<^verbatim>\<open>setChecked\<close> has written): the map
  the call returns from is the live one; a checkable node among the related nodes that is
  checked once \<^verbatim>\<open>setChecked\<close> has done its writes, as an ancestor is whose children have
  all become checked, has its entry in the live map; and an identity that belongs to no
  checkable related node has the entry that \<^verbatim>\<open>setChecked\<close> left it, which for an
  ancestor is none. On a tree with fuel beyond twice the bound of the measures the
  committed call returns.
\<close>

theorem updateChecked_propagation:
  "(\<forall>s1. updateChecked f s n = Some s1 \<longrightarrow>
      (isCheckable s n \<longrightarrow>
         (\<exists>c. isChecked f s None n = Some c
            \<and> checkedMap s1 = (if c then (checkedMap s)(nvalue (objs s n) \<mapsto> True)
                               else checkedMap s)))
    \<and> (\<not> isCheckable s n \<longrightarrow> checkedMap s1 = checkedMap s))
 \<and> (treeMeasures s d h B \<and> h n + B < f \<longrightarrow> (\<exists>s1. updateChecked f s n = Some s1))
 \<and> (\<not> cfg_checkStrictly (config s)
      \<and> checkedWrites f s child True = Some m1
      \<and> rel (s\<lparr>checkedMap := m1\<rparr>) child = Some rs \<longrightarrow>
      (\<forall>s' m'. setChecked rel f s child True True = Some (s', m') \<longrightarrow>
          m' = checkedMap s'
        \<and> (\<forall>a\<in>set rs. isCheckable s a
                \<and> isChecked f (s\<lparr>checkedMap := m1\<rparr>) None a = Some True \<longrightarrow>
              checkedMap s' (nvalue (objs s a)) = Some True)
        \<and> (\<forall>k. (\<forall>r\<in>set rs. k = nvalue (objs s r) \<longrightarrow> \<not> isCheckable s r) \<longrightarrow>
              checkedMap s' k = m1 k))
    \<and> (treeMeasures s d h B \<and> 2 * B < f \<longrightarrow>
          (\<exists>s'. setChecked rel f s child True True = Some (s', checkedMap s'))))"
proof (intro conjI allI impI ballI)
  fix s1 assume "updateChecked f s n = Some s1" "isCheckable s n"
  then show "\<exists>c. isChecked f s None n = Some c
          \<and> checkedMap s1 = (if c then (checkedMap s)(nvalue (objs s n) \<mapsto> True)
                             else checkedMap s)"
    using updateChecked_result by blast
next
  fix s1 assume "updateChecked f s n = Some s1" "\<not> isCheckable s n"
  then show "checkedMap s1 = checkedMap s"
    using updateChecked_map by simp
next
  assume "treeMeasures s d h B \<and> h n + B < f"
  then show "\<exists>s1. updateChecked f s n = Some s1"
    using updateChecked_tree by blast
next
  fix s' m'
  assume h: "\<not> cfg_checkStrictly (config s)
      \<and> checkedWrites f s child True = Some m1
      \<and> rel (s\<lparr>checkedMap := m1\<rparr>) child = Some rs"
    and r: "setChecked rel f s child True True = Some (s', m')"
  let ?s1 = "s\<lparr>checkedMap := m1\<rparr>"
  from h r have fe: "forEach (updateChecked f) rs ?s1 = Some s'" and m': "m' = checkedMap s'"
    by (auto simp: setChecked_def Let_def)
  from m' show "m' = checkedMap s'" .
  show "checkedMap s' (nvalue (objs s a)) = Some True"
    if a: "a \<in> set rs"
      and ck: "isCheckable s a \<and> isChecked f (s\<lparr>checkedMap := m1\<rparr>) None a = Some True" for a
  proof -
    have c: "isCheckable ?s1 a" using ck by (simp add: isCheckable_def)
    from forEach_updateChecked_writes[OF fe a c] ck
    have "checkedMap s' (nvalue (objs ?s1 a)) = Some True" by simp
    then show ?thesis by simp
  qed
  show "checkedMap s' k = m1 k"
    if nk: "\<forall>r\<in>set rs. k = nvalue (objs s r) \<longrightarrow> \<not> isCheckable s r" for k
  proof -
    have "isCheckable ?s1 r = isCheckable s r" for r by (simp add: isCheckable_def)
    with forEach_updateChecked_adds[OF fe, of k] nk show ?thesis by auto
  qed
next
  assume h: "\<not> cfg_checkStrictly (config s)
      \<and> checkedWrites f s child True = Some m1
      \<and> rel (s\<lparr>checkedMap := m1\<rparr>) child = Some rs"
    and tm: "treeMeasures s d h B \<and> 2 * B < f"
  let ?s1 = "s\<lparr>checkedMap := m1\<rparr>"
  have "sameStruct s ?s1" by (simp add: sameStruct_def)
  with tm have "treeMeasures ?s1 d h B" by (auto intro: treeMeasures_sameStruct)
  from forEach_updateChecked_tree[OF this, of f rs] tm obtain s' where
    "forEach (updateChecked f) rs ?s1 = Some s'" by blast
  with h show "\<exists>s'. setChecked rel f s child True True = Some (s', checkedMap s')"
    by (simp add: setChecked_def Let_def)
qed

text \<open>
  The theorem in the example tree where \<open>a\<close> and its child are checked and \<open>b\<close> is not.
  \<^verbatim>\<open>updateChecked\<close> of \<open>a\<close> returns and leaves the map as it is, the entry of \<open>a\<close> being
  there. Checking \<open>b\<close> and committing: the writes of \<^verbatim>\<open>setChecked\<close> leave the root
  without an entry, the root is among the related nodes and is now checked through its
  children, the call returns, and after it the live map holds the root. And in the tree
  with the switches, where the root is not checkable: \<^verbatim>\<open>updateChecked\<close> of the root
  returns and writes nothing, and after checking \<open>a\<close> and committing the live map holds
  \<open>a\<close> and has no entry for the root.
\<close>

theorem updateChecked_propagation_witness:
  "treeMeasures ex_half ex_depth ex_height 2
   \<and> isCheckable ex_half 1
   \<and> (case updateChecked 5 ex_half 1 of
        None \<Rightarrow> False
      | Some s1 \<Rightarrow> isChecked 5 ex_half None 1 = Some True \<and> checkedMap s1 ''a'' = Some True)
   \<and> \<not> cfg_checkStrictly (config ex_half)
   \<and> isCheckable ex_half 0
   \<and> checkedMap ex_half ''r'' = None
   \<and> (case checkedWrites 5 ex_half 2 True of None \<Rightarrow> False | Some m1 \<Rightarrow> m1 ''r'' = None)
   \<and> (case setChecked (getRelatedNodes 5) 5 ex_half 2 True True of
        None \<Rightarrow> False
      | Some (s', m') \<Rightarrow> checkedMap s' ''r'' = Some True \<and> m' ''r'' = Some True)
   \<and> treeMeasures ex_switch ex_depth ex_height 2
   \<and> \<not> isCheckable ex_switch 0
   \<and> (case updateChecked 5 ex_switch 0 of
        None \<Rightarrow> False
      | Some s1 \<Rightarrow> checkedMap s1 ''r'' = None)
   \<and> (case setChecked (getRelatedNodes 5) 5 ex_switch 1 True True of
        None \<Rightarrow> False
      | Some (s', m') \<Rightarrow> checkedMap s' ''r'' = None \<and> checkedMap s' ''a'' = Some True)"
proof -
  let ?s = ex_half
  let ?rel = "getRelatedNodes 5"
  have tm: "treeMeasures ?s ex_depth ex_height 2"
    by (rule ex_tree) (simp_all add: ex_half_def)
  have hs: "ex_height 1 + 2 < (5::nat)" "ex_height 0 + 2 < (5::nat)" "2 * 2 < (5::nat)"
    by (simp_all add: ex_height_def)
  have ck1: "isCheckable ?s 1" by code_simp
  note first = updateChecked_propagation[THEN conjunct1, rule_format]
  note ret = updateChecked_propagation[THEN conjunct2, THEN conjunct1, rule_format]
  from ret[of ?s ex_depth ex_height 2 1 5] tm hs obtain s1 where
    u: "updateChecked 5 ?s 1 = Some s1" by auto
  have c1: "isChecked 5 ?s None 1 = Some True" by code_simp
  have v1: "nvalue (objs ?s 1) = ''a''" by code_simp
  from first[OF u, THEN conjunct1, rule_format, OF ck1] c1 v1
  have p1: "checkedMap s1 ''a'' = Some True" by auto
  have ns: "\<not> cfg_checkStrictly (config ?s)" by code_simp
  have ck0: "isCheckable ?s 0" by code_simp
  have before: "checkedMap ?s ''r'' = None" by code_simp
  have "case checkedWrites 5 ?s 2 True of
          None \<Rightarrow> False
        | Some m1 \<Rightarrow>
            m1 ''r'' = None
            \<and> getRelatedNodes 5 (?s\<lparr>checkedMap := m1\<rparr>) 2 = Some [0, 2]
            \<and> isChecked 5 (?s\<lparr>checkedMap := m1\<rparr>) None 0 = Some True"
    by code_simp
  then obtain m1 where w: "checkedWrites 5 ?s 2 True = Some m1" and w0: "m1 ''r'' = None"
    and rel: "getRelatedNodes 5 (?s\<lparr>checkedMap := m1\<rparr>) 2 = Some [0, 2]"
    and c0: "isChecked 5 (?s\<lparr>checkedMap := m1\<rparr>) None 0 = Some True"
    by (auto split: option.splits)
  from ns w rel have pre: "\<not> cfg_checkStrictly (config ?s)
      \<and> checkedWrites 5 ?s 2 True = Some m1
      \<and> ?rel (?s\<lparr>checkedMap := m1\<rparr>) 2 = Some [0, 2]" by simp
  note prp = updateChecked_propagation[where rel = "getRelatedNodes 5" and s = ex_half
      and f = 5 and child = 2 and ?m1.0 = m1 and rs = "[0, 2]" and d = ex_depth
      and h = ex_height and B = 2, THEN conjunct2, THEN conjunct2, rule_format, OF pre]
  from prp[THEN conjunct2] tm hs obtain s' where
    r: "setChecked ?rel 5 ?s 2 True True = Some (s', checkedMap s')" by auto
  have v0: "nvalue (objs ?s 0) = ''r''" by code_simp
  from prp[THEN conjunct1, rule_format, OF r, THEN conjunct2, THEN conjunct1,
            rule_format, of 0] ck0 c0 v0
  have p2: "checkedMap s' ''r'' = Some True" by simp
  let ?t = ex_switch
  have tm2: "treeMeasures ?t ex_depth ex_height 2"
    by (rule ex_tree) (simp_all add: ex_switch_def ex_store_def mkNode_def)
  have nck: "\<not> isCheckable ?t 0" by code_simp
  have beforet: "checkedMap ?t ''r'' = None" by code_simp
  from ret[of ?t ex_depth ex_height 2 0 5] tm2 hs obtain t1 where
    ut: "updateChecked 5 ?t 0 = Some t1" by auto
  from first[OF ut, THEN conjunct2, rule_format, OF nck] beforet
  have p3: "checkedMap t1 ''r'' = None" by simp
  have nst: "\<not> cfg_checkStrictly (config ?t)" by code_simp
  have "case checkedWrites 5 ?t 1 True of
          None \<Rightarrow> False
        | Some m1 \<Rightarrow>
            m1 ''r'' = None \<and> m1 ''a'' = Some True
            \<and> getRelatedNodes 5 (?t\<lparr>checkedMap := m1\<rparr>) 1 = Some [0, 1, 3]
            \<and> isChecked 5 (?t\<lparr>checkedMap := m1\<rparr>) None 1 = Some True"
    by code_simp
  then obtain k1 where wt: "checkedWrites 5 ?t 1 True = Some k1" and wt0: "k1 ''r'' = None"
    and wta: "k1 ''a'' = Some True"
    and relt: "getRelatedNodes 5 (?t\<lparr>checkedMap := k1\<rparr>) 1 = Some [0, 1, 3]"
    and ct: "isChecked 5 (?t\<lparr>checkedMap := k1\<rparr>) None 1 = Some True"
    by (auto split: option.splits)
  from nst wt relt have pret: "\<not> cfg_checkStrictly (config ?t)
      \<and> checkedWrites 5 ?t 1 True = Some k1
      \<and> ?rel (?t\<lparr>checkedMap := k1\<rparr>) 1 = Some [0, 1, 3]" by simp
  note prt = updateChecked_propagation[where rel = "getRelatedNodes 5" and s = ex_switch
      and f = 5 and child = 1 and ?m1.0 = k1 and rs = "[0, 1, 3]" and d = ex_depth
      and h = ex_height and B = 2, THEN conjunct2, THEN conjunct2, rule_format, OF pret]
  from prt[THEN conjunct2] tm2 hs obtain t' where
    rt: "setChecked ?rel 5 ?t 1 True True = Some (t', checkedMap t')" by auto
  have vt: "nvalue (objs ?t 0) = ''r''" "nvalue (objs ?t 1) = ''a''" "nvalue (objs ?t 3) = ''d''"
    by code_simp+
  have ckt: "isCheckable ?t 1" "isCheckable ?t 3" by code_simp+
  have nk: "\<forall>r\<in>set [0, 1, 3]. ''r'' = nvalue (objs ?t r) \<longrightarrow> \<not> isCheckable ?t r"
    using nck vt by simp
  from prt[THEN conjunct1, rule_format, OF rt, THEN conjunct2, THEN conjunct2,
            THEN spec, THEN mp, OF nk] wt0
  have p4: "checkedMap t' ''r'' = None" by simp
  from prt[THEN conjunct1, rule_format, OF rt, THEN conjunct2, THEN conjunct1,
            rule_format, of 1] ckt ct vt
  have p5: "checkedMap t' ''a'' = Some True" by simp
  from tm ck1 u c1 p1 ns ck0 before w w0 r p2 tm2 nck ut p3 rt p4 p5 show ?thesis by simp
qed

text \<open>
  C10 as stated fails for an ancestor that is not checkable. In the tree with the
  switches the root is not checkable and its children \<open>a\<close> and \<open>b\<close> are. \<open>a\<close> is checked
  and committed, then \<open>b\<close>: the root is the one ancestor of \<open>b\<close>, both of its children
  have become checked, its derived checked value is true, and the live map after the call
  has no entry for it.
\<close>

theorem updateChecked_not_checkable_counterexample:
  "(case setChecked (getRelatedNodes 5) 5 ex_switch 1 True True of
      None \<Rightarrow> False
    | Some (s1, m1) \<Rightarrow>
        \<not> cfg_checkStrictly (config s1)
        \<and> getParents 5 s1 2 = Some [0]
        \<and> children (objs s1 0) = Nodes [1, 2]
        \<and> isChecked 5 s1 None 1 = Some True
        \<and> isChecked 5 s1 None 2 = Some False
        \<and> (case setChecked (getRelatedNodes 5) 5 s1 2 True True of
              None \<Rightarrow> False
            | Some (s2, m2) \<Rightarrow>
                isChecked 5 s2 None 1 = Some True \<and> isChecked 5 s2 None 2 = Some True
                \<and> isChecked 5 s2 None 0 = Some True
                \<and> \<not> isCheckable s2 0
                \<and> checkedMap s2 ''r'' = None \<and> m2 ''r'' = None))"
  by code_simp

section \<open>Removing a node\<close>

lemma updateParents_keeps: "updateParents f s n = Some s' \<Longrightarrow> keeps s s'"
proof (induction f arbitrary: s n)
  case 0
  then show ?case by simp
next
  case (Suc f)
  show ?case
  proof (cases "parent (objs s n)")
    case None
    with Suc.prems show ?thesis by (simp add: keeps_refl)
  next
    case (Some p)
    with Suc.prems obtain t where "updateBoth f s p = Some t" "updateParents f t p = Some s'"
      by (auto split: Option.bind_splits)
    with Suc.IH updateBoth_keeps show ?thesis by (blast intro: keeps_trans)
  qed
qed

lemma updateBoth_checked:
  assumes "updateBoth f s p = Some s'"
  shows "checkedMap s' = checkedMap s \<or> checkedMap s' = (checkedMap s)(nvalue (objs s p) \<mapsto> True)"
proof -
  from assms obtain t where u: "update f s p = Some t" and c: "updateChecked f t p = Some s'"
    by (auto simp: updateBoth_def split: Option.bind_splits)
  from update_keeps[OF u] have "checkedMap t = checkedMap s" "nvalue (objs t p) = nvalue (objs s p)"
    by (simp_all add: keeps_def sameStruct_def)
  with updateChecked_keeps[OF c] show ?thesis by auto
qed

lemma updateParents_checked:
  assumes "updateParents f s n = Some s'" and "parentsFrom f s (parent (objs s n)) = Some ps"
      and "k \<notin> (\<lambda>p. nvalue (objs s p)) ` set ps"
  shows "checkedMap s' k = checkedMap s k"
  using assms
proof (induction f arbitrary: s n ps)
  case 0
  then show ?case by simp
next
  case (Suc f)
  show ?case
  proof (cases "parent (objs s n)")
    case None
    with Suc.prems show ?thesis by simp
  next
    case (Some p)
    with Suc.prems(1) obtain t where
      t: "updateBoth f s p = Some t" "updateParents f t p = Some s'"
      by (auto split: Option.bind_splits)
    from Suc.prems(2) Some obtain ps' where
      ps': "parentsFrom f s (parent (objs s p)) = Some ps'" "ps = p # ps'"
      by (auto split: option.splits)
    from updateBoth_keeps[OF t(1)] have ss: "sameStruct s t" by (simp add: keeps_def)
    then have pt: "parentsFrom f t (parent (objs t p)) = Some ps'"
      using ps'(1) parentsFrom_cong[OF ss] by (simp add: sameStruct_def)
    from ss have nv: "nvalue (objs t q) = nvalue (objs s q)" for q by (simp add: sameStruct_def)
    from Suc.prems(3) ps'(2) have k: "k \<noteq> nvalue (objs s p)" "k \<notin> (\<lambda>q. nvalue (objs t q)) ` set ps'"
      by (auto simp: nv)
    from Suc.IH[OF t(2) pt k(2)] have "checkedMap s' k = checkedMap t k" .
    also from updateBoth_checked[OF t(1)] k(1) have "checkedMap t k = checkedMap s k" by auto
    finally show ?thesis .
  qed
qed

lemma parentsFrom_parents:
  assumes "\<And>q. parent (objs s' q) = parent (objs s q)"
  shows "parentsFrom f s' x = parentsFrom f s x"
proof (induction f arbitrary: x)
  case 0
  then show ?case by (cases x) simp_all
next
  case (Suc f)
  then show ?case by (cases x) (simp_all add: assms)
qed

lemma foldl_clean:
  "objs (foldl clean s ws) = objs s \<and> filterMap (foldl clean s ws) = filterMap s
   \<and> nodeMap (foldl clean s ws) k
       = (if k \<in> (\<lambda>w. nvalue (objs s w)) ` set ws then None else nodeMap s k)
   \<and> checkedMap (foldl clean s ws) k
       = (if k \<in> (\<lambda>w. nvalue (objs s w)) ` set ws then None else checkedMap s k)
   \<and> expandedMap (foldl clean s ws) k
       = (if k \<in> (\<lambda>w. nvalue (objs s w)) ` set ws then None else expandedMap s k)
   \<and> activedMap (foldl clean s ws) k
       = (if k \<in> (\<lambda>w. nvalue (objs s w)) ` set ws then None else activedMap s k)"
proof (induction ws arbitrary: s)
  case Nil
  then show ?case by simp
next
  case (Cons w ws)
  have o: "objs (clean s w) = objs s" by (simp add: clean_def Let_def)
  from Cons[of "clean s w"] show ?case
    by (simp add: o) (simp add: clean_def Let_def)
qed

lemma forEach_update_keeps:
  "forEach (update f) xs s = Some s' \<Longrightarrow> keeps s s' \<and> checkedMap s' = checkedMap s"
proof (induction xs arbitrary: s)
  case Nil
  then show ?case by (simp add: keeps_refl)
next
  case (Cons x xs)
  then obtain t where t: "update f s x = Some t" "forEach (update f) xs t = Some s'"
    by (auto split: option.splits)
  from update_keeps[OF t(1)] Cons.IH[OF t(2)] show ?case
    by (auto intro: keeps_trans)
qed

text \<open>
  What \<^verbatim>\<open>remove\<close> does clean: when it returns, no identity of the subtree is in the node
  index, in the expanded map or in the activated map; nor in the checked map, for an
  identity that is not also the identity of an ancestor (the update of the ancestors that
  ends \<^verbatim>\<open>remove\<close> writes checked ancestors back).
\<close>

lemma remove_cleans:
  assumes r: "remove f s n = Some s'" and ws: "walk f s n = Some ws" and w: "w \<in> set ws"
  shows "nodeMap s' (nvalue (objs s w)) = None
       \<and> expandedMap s' (nvalue (objs s w)) = None
       \<and> activedMap s' (nvalue (objs s w)) = None
       \<and> (\<forall>ps. getParents f s n = Some ps \<and> nvalue (objs s w) \<notin> (\<lambda>p. nvalue (objs s p)) ` set ps
              \<longrightarrow> checkedMap s' (nvalue (objs s w)) = None)"
proof -
  define sib where "sib = arraySplice (getSiblings s n) (getIndex s n) 1 []"
  define s1 where "s1 = (case parent (objs s n) of
                Some p \<Rightarrow>
                  (case children (objs s p) of
                     Nodes cs \<Rightarrow> setNode s p (\<lambda>node. node\<lparr>children := Nodes sib\<rparr>)
                   | _ \<Rightarrow> s)
              | None \<Rightarrow> s\<lparr>tree_children := sib\<rparr>)"
  define s2 where "s2 = foldl clean s1 ws"
  let ?k = "nvalue (objs s w)"
  have "remove f s n
          = Option.bind (forEach (update f) sib s2)
              (\<lambda>s3. map_option reflow (updateParents f s3 n))"
    unfolding remove_def ws sib_def s1_def s2_def by (simp only: option.case Let_def)
  with r obtain s3 where
    fe: "forEach (update f) sib s2 = Some s3" and up: "updateParents f s3 n = Some s'"
    by (auto simp: reflow_def split: Option.bind_splits)
  have s1: "nvalue (objs s1 q) = nvalue (objs s q)" "parent (objs s1 q) = parent (objs s q)" for q
    by (auto simp: s1_def setNode_def split: option.splits kids.splits)
  have in_ws: "?k \<in> (\<lambda>w. nvalue (objs s1 w)) ` set ws"
    using w by (auto simp: s1)
  note cl = foldl_clean[of s1 ws ?k, folded s2_def]
  from cl in_ws have c2: "nodeMap s2 ?k = None" "expandedMap s2 ?k = None"
    "activedMap s2 ?k = None" "checkedMap s2 ?k = None"
    by simp_all
  from forEach_update_keeps[OF fe] have k3: "keeps s2 s3" "checkedMap s3 = checkedMap s2"
    by simp_all
  from updateParents_keeps[OF up] have k4: "keeps s3 s'" .
  from k3(1) k4 have k: "keeps s2 s'" by (rule keeps_trans)
  have a: "nodeMap s' ?k = None" "expandedMap s' ?k = None" "activedMap s' ?k = None"
    using k c2 by (simp_all add: keeps_def sameStruct_def)
  have b: "checkedMap s' ?k = None"
    if ps: "getParents f s n = Some ps" and nk: "?k \<notin> (\<lambda>p. nvalue (objs s p)) ` set ps" for ps
  proof -
    have o2: "objs s2 = objs s1" using cl by simp
    have st: "nvalue (objs s3 q) = nvalue (objs s q)" "parent (objs s3 q) = parent (objs s q)" for q
      using k3(1) by (simp_all add: keeps_def sameStruct_def o2 s1)
    have pf: "parentsFrom g s3 x = parentsFrom g s x" for g x
      by (rule parentsFrom_parents) (simp add: st)
    from ps have p3: "parentsFrom f s3 (parent (objs s3 n)) = Some ps"
      by (simp add: getParents_def pf st)
    from nk have "?k \<notin> (\<lambda>p. nvalue (objs s3 p)) ` set ps" by (simp add: st)
    from updateParents_checked[OF up p3 this] k3(2) c2(4) show ?thesis by simp
  qed
  from a b show ?thesis by blast
qed

text \<open>
  C3 at the input where it fails. In the example tree with a filter that accepts \<open>b\<close>,
  \<^verbatim>\<open>update\<close> of \<open>b\<close> records it in the filter map. After \<^verbatim>\<open>remove\<close> of \<open>b\<close> its
  identity is gone from the node index and from the checked, expanded and activated maps,
  and it is still in the filter map: \<^verbatim>\<open>clean\<close> deletes from three maps and the index.
  The rest of the claim holds there: the flags of the remaining sibling \<open>a\<close> are
  recomputed (it is now first and last), and the flags of the removed \<open>b\<close> stay as they
  were (visible, last).
\<close>

theorem remove_keeps_filter_entry:
  "(case update 8 ex_filter_b 2 of
      None \<Rightarrow> False
    | Some s1 \<Rightarrow>
        filterMap s1 ''b'' = Some True \<and> nodeMap s1 ''b'' = Some 2
        \<and> \<not> vmIsLast (objs s1 1) \<and> vmIsLast (objs s1 2) \<and> visible (objs s1 2)
        \<and> (case remove 8 s1 2 of
              None \<Rightarrow> False
            | Some s2 \<Rightarrow>
                nodeMap s2 ''b'' = None \<and> checkedMap s2 ''b'' = None
                \<and> expandedMap s2 ''b'' = None \<and> activedMap s2 ''b'' = None
                \<and> filterMap s2 ''b'' = Some True
                \<and> vmIsFirst (objs s2 1) \<and> vmIsLast (objs s2 1)
                \<and> vmIsLast (objs s2 2) \<and> visible (objs s2 2)))"
  by code_simp

section \<open>Moving a node: the two guards\<close>

text \<open>
  The two guards of \<^verbatim>\<open>appendTo\<close>, where they apply, and the other silent returns: the
  setters on a node that is not checkable or not activable, called without \<^verbatim>\<open>directly\<close>,
  and \<^verbatim>\<open>loadChildren\<close> without a load function.
\<close>

lemma appendTo_into_descendant:
  assumes "getParents f s p = Some ps"
      and "list_ex (\<lambda>a. nvalue (objs s a) = nvalue (objs s n)) ps"
  shows "appendTo f s n (Some p) index = Some (Inr s)"
  using assms by (simp add: appendTo_def)

lemma appendTo_same_position:
  assumes "getParents f s p = Some ps" and "samePosition s n p index = Inr True"
  shows "appendTo f s n (Some p) index = Some (Inr s)"
  using assms by (simp add: appendTo_def)

lemma setChecked_not_checkable:
  "\<not> isCheckable s n \<Longrightarrow> setChecked rel f s n v False = Some (s, checkedMap s)"
  by (simp add: setChecked_def checkedWrites_def)

lemma setActived_not_activable:
  "\<not> isActivable s n \<Longrightarrow> setActived f s n v False = Some (s, activedMap s)"
  by (simp add: setActived_def)

lemma loadChildren_without_load:
  "\<not> cfg_load (config s) \<Longrightarrow> loadChildren f s n = Some s"
  by (simp add: loadChildren_def)

lemma those_None: "None \<in> set xs \<Longrightarrow> those xs = None"
  by (induction xs) (auto split: option.splits)

lemma walk_own_child:
  "children (objs s n) = Nodes cs \<Longrightarrow> n \<in> set cs \<Longrightarrow> walk f s n = None"
proof (induction f)
  case 0
  then show ?case by simp
next
  case (Suc f)
  then have "None \<in> set (map (walk f s) cs)" by force
  then have "those (map (walk f s) cs) = None" by (rule those_None)
  with Suc.prems(1) show ?case by simp
qed

lemma link_into_itself:
  "parent (objs (link s n n index) n) = Some n
   \<and> (\<exists>cs. children (objs (link s n n index) n) = Nodes cs \<and> n \<in> set cs)"
  by (cases index) (auto simp: link_def setNode_def arraySplice_def Let_def)

lemma appendTo_into_itself:
  assumes "\<forall>ps. getParents f s n = Some ps
                \<longrightarrow> \<not> list_ex (\<lambda>p. nvalue (objs s p) = nvalue (objs s n)) ps"
      and "samePosition s n n index = Inr False"
  shows "appendTo f s n (Some n) index = None"
proof (cases "getParents f s n")
  case None
  then show ?thesis by (simp add: appendTo_def)
next
  case (Some ps)
  show ?thesis
  proof (cases "remove f s n")
    case None
    with Some assms show ?thesis by (simp add: appendTo_def)
  next
    case (Some s1)
    from link_into_itself[of s1 n index] walk_own_child
    have "walk f (link s1 n n index) n = None" by blast
    with Some \<open>getParents f s n = Some ps\<close> assms show ?thesis
      by (simp add: appendTo_def)
  qed
qed

text \<open>
  C4 at the input where it fails: \<open>b\<close> of the example tree is appended to itself. The
  guard looks for the node among the ancestors of the target, and a node is not its own
  ancestor; so the node is removed, becomes its own parent and its own child, and the walk
  over its subtree that follows does not return, whatever the fuel.
\<close>

theorem appendTo_itself_no_guard:
  "(\<forall>f. appendTo f ex_store 2 (Some 2) None = None)
   \<and> (case remove 8 ex_store 2 of
        None \<Rightarrow> False
      | Some s1 \<Rightarrow>
          parent (objs (link s1 2 2 None) 2) = Some 2
          \<and> children (objs (link s1 2 2 None) 2) = Nodes [2])"
proof
  show "\<forall>f. appendTo f ex_store 2 (Some 2) None = None"
  proof
    fix f
    have sp: "samePosition ex_store 2 2 None = Inr False" by code_simp
    have v: "\<not> list_ex (\<lambda>p. nvalue (objs ex_store p) = nvalue (objs ex_store 2)) [0]"
      by code_simp
    have "ps = [0]" if "getParents f ex_store 2 = Some ps" for ps
      using that
      by (cases f) (auto simp: getParents_def ex_store_def mkNode_def blank_def
                       split: option.splits)
    with v have g: "\<forall>ps. getParents f ex_store 2 = Some ps
                \<longrightarrow> \<not> list_ex (\<lambda>p. nvalue (objs ex_store p) = nvalue (objs ex_store 2)) ps"
      by blast
    from appendTo_into_itself[OF g sp] show "appendTo f ex_store 2 (Some 2) None = None" .
  qed
  show "case remove 8 ex_store 2 of
        None \<Rightarrow> False
      | Some s1 \<Rightarrow>
          parent (objs (link s1 2 2 None) 2) = Some 2
          \<and> children (objs (link s1 2 2 None) 2) = Nodes [2]"
    by code_simp
qed

text \<open>
  C9 at the inputs where it fails. After \<open>d\<close> has been removed from the example tree its
  former parent \<open>a\<close> has the empty array, and appending \<open>d\<close> to \<open>a\<close> again, with the
  index 0 or with none, throws: \<^verbatim>\<open>parentNode.children[0]\<close> is \<^verbatim>\<open>undefined\<close>. The same
  happens in the full tree when \<open>d\<close> is inserted after \<open>b\<close>, the last child of the root:
  the index is then the length of the array.
\<close>

theorem appendTo_throws:
  "(case remove 5 ex_store 3 of
      None \<Rightarrow> False
    | Some s \<Rightarrow>
        children (objs s 1) = Nodes []
        \<and> (case appendTo 5 s 3 (Some 1) (Some 0) of Some (Inl TypeError) \<Rightarrow> True | _ \<Rightarrow> False)
        \<and> (case appendTo 5 s 3 (Some 1) None of Some (Inl TypeError) \<Rightarrow> True | _ \<Rightarrow> False))
   \<and> children (objs ex_store 0) = Nodes [1, 2]
   \<and> (case insertAfter 5 ex_store 2 3 of Some (Inl TypeError) \<Rightarrow> True | _ \<Rightarrow> False)"
  by code_simp

end
